theory Spec2Isabelle
  imports Main
begin

section \<open>Values, objects and the store\<close>

text \<open>
  The library works on JavaScript object graphs that are mutated in place and compared by
  identity, so the model keeps an explicit store: a list of objects, an object reference
  being its index. \<open>new\<close> appends to the list, so a new object is distinct from every
  object that exists.
\<close>

type_synonym addr = nat

text \<open>An observer callback is known by its identity only; what it does when called is
  recorded in the state, the way the test suite's spy records it.\<close>

type_synonym callback = nat

text \<open>The values. A number is an integer (the numbers that \<open>String\<close> prints in plain
  decimal, those below \<open>10\<^sup>2\<^sup>1\<close> in magnitude, are the ones the model covers).\<close>

datatype val =
    VUndef
  | VNull
  | VBool bool
  | VNum int
  | VStr string
  | VFun nat
  | VObj addr

datatype jstype = TUndefined | TObject | TBoolean | TNumber | TString | TFunction

text \<open>The \<open>typeof\<close> operator; \<open>typeof null\<close> is \<open>"object"\<close>.\<close>

fun typeof :: "val \<Rightarrow> jstype" where
  "typeof VUndef = TUndefined"
| "typeof VNull = TObject"
| "typeof (VBool b) = TBoolean"
| "typeof (VNum i) = TNumber"
| "typeof (VStr s) = TString"
| "typeof (VFun f) = TFunction"
| "typeof (VObj a) = TObject"

text \<open>
  A property key is a string. \<open>Index i\<close> stands for the canonical decimal string of
  \<open>i\<close> (the key an array element has); \<open>Name s\<close> is every other string.
\<close>

datatype pkey = Name string | Index nat

text \<open>The element types of the integer typed arrays (the floating point and BigInt ones
  are handled by the same source branch and are left out of the store).\<close>

datatype tkind = Int8 | Uint8 | Uint8Clamped | Int16 | Uint16 | Int32 | Uint32

datatype okind = ErrorObj | DateObj | RegExpObj

text \<open>
  The objects the source tells apart with \<open>instanceof\<close> and \<open>Object.getPrototypeOf\<close>.
  \<open>Plain\<close> is an object whose prototype is \<open>Object.prototype\<close> or \<open>null\<close>, with its own
  properties in insertion order; \<open>Other\<close> is any other object (a class instance);
  \<open>Proxy target strict\<close> is a proxy built by \<open>makeObservable\<close>, with the \<open>obj\<close> and
  \<open>strict\<close> that its handler closes over.
\<close>

datatype obj =
    Plain "(pkey \<times> val) list"
  | Arr "val list"
  | SetO "val list"
  | WeakSetO "val list"
  | MapO "(val \<times> val) list"
  | WeakMapO "(val \<times> val) list"
  | TypedArr tkind "int list"
  | Opaque okind
  | Other
  | Proxy addr bool

datatype etype = Change | Delete

record observation =
  etype :: etype
  target :: val
  path :: val
  valueNew :: val
  valueOld :: val

record info =
  raw :: val
  name :: val
  parent :: val
  callbacks :: "callback list"
  paused :: "callback \<Rightarrow> bool option"

record state =
  heap :: "obj list"
  observableMap :: "addr \<Rightarrow> info option"
  calls :: "(callback \<times> observation) list"

datatype error =
    NotAnObject
  | ArgumentNotObject
  | UnsupportedType
  | NotObservable
  | AlreadyRegistered
  | NotRegistered
  | MissingInfo
  | TypeError
  | OutsideModel
  | OutOfFuel

type_synonym 'a result = "(error + 'a) \<times> state"

definition ret :: "'a \<Rightarrow> state \<Rightarrow> 'a result" where
  "ret x s = (Inr x, s)"

definition throw :: "error \<Rightarrow> state \<Rightarrow> 'a result" where
  "throw e s = (Inl e, s)"

text \<open>Sequencing: an exception ends the computation and keeps the state reached.\<close>

definition bind :: "(state \<Rightarrow> 'a result) \<Rightarrow> ('a \<Rightarrow> state \<Rightarrow> 'b result) \<Rightarrow> state \<Rightarrow> 'b result" where
  "bind m f s = (case m s of (Inl e, s1) \<Rightarrow> (Inl e, s1) | (Inr x, s1) \<Rightarrow> f x s1)"

fun for_each :: "('a \<Rightarrow> state \<Rightarrow> unit result) \<Rightarrow> 'a list \<Rightarrow> state \<Rightarrow> unit result" where
  "for_each f [] s = (Inr (), s)"
| "for_each f (x # xs) s =
     (case f x s of (Inl e, s1) \<Rightarrow> (Inl e, s1) | (Inr u, s1) \<Rightarrow> for_each f xs s1)"

definition obj_at :: "state \<Rightarrow> addr \<Rightarrow> obj option" where
  "obj_at s a = (if a < length (heap s) then Some (heap s ! a) else None)"

definition alloc :: "obj \<Rightarrow> state \<Rightarrow> addr \<times> state" where
  "alloc ob s = (length (heap s), s\<lparr>heap := heap s @ [ob]\<rparr>)"

definition store :: "addr \<Rightarrow> obj \<Rightarrow> state \<Rightarrow> state" where
  "store a ob s = s\<lparr>heap := (heap s)[a := ob]\<rparr>"

text \<open>\<open>observableMap.has\<close> and \<open>observableMap.get\<close>: a key that is not an object is
  never found.\<close>

fun map_has :: "state \<Rightarrow> val \<Rightarrow> bool" where
  "map_has s (VObj a) = (observableMap s a \<noteq> None)"
| "map_has s v = False"

fun map_get :: "state \<Rightarrow> val \<Rightarrow> info option" where
  "map_get s (VObj a) = observableMap s a"
| "map_get s v = None"

section \<open>Strings\<close>

definition digit :: "nat \<Rightarrow> char" where
  "digit d = (''0123456789'' ! (d mod 10))"

function nat_String :: "nat \<Rightarrow> string" where
  "nat_String n = (if n < 10 then [digit n] else nat_String (n div 10) @ [digit (n mod 10)])"
  by pat_completeness auto
termination
  by (relation "measure (\<lambda>n. n)") auto

declare nat_String.simps [simp del]

text \<open>
  \<open>String(v)\<close>. A function and an object are rendered the way a plain object is (an
  array, a \<open>Date\<close> or a function prints differently in JavaScript); the theorems below
  render primitives only.
\<close>

fun to_String :: "val \<Rightarrow> string" where
  "to_String VUndef = ''undefined''"
| "to_String VNull = ''null''"
| "to_String (VBool b) = (if b then ''true'' else ''false'')"
| "to_String (VNum i) = (if i < 0 then ''-'' @ nat_String (nat (- i)) else nat_String (nat i))"
| "to_String (VStr s) = s"
| "to_String (VFun f) = ''[object Object]''"
| "to_String (VObj a) = ''[object Object]''"

fun key_String :: "pkey \<Rightarrow> string" where
  "key_String (Name s) = s"
| "key_String (Index i) = nat_String i"

section \<open>triggerObserver\<close>

text \<open>
  Calls every callback of the target that is not paused, in the order of the \<open>callbacks\<close>
  set, then goes on with the parent. The recursion follows the parent links, which the
  source does not bound; the fuel does.
\<close>

definition call_all :: "info \<Rightarrow> observation \<Rightarrow> state \<Rightarrow> state" where
  "call_all i ob s =
     s\<lparr>calls := calls s @
         map (\<lambda>cb. (cb, ob)) (filter (\<lambda>cb. paused i cb \<noteq> Some True) (callbacks i))\<rparr>"

primrec triggerObserver ::
  "nat \<Rightarrow> etype \<Rightarrow> val \<Rightarrow> val \<Rightarrow> val \<Rightarrow> val \<Rightarrow> state \<Rightarrow> unit result" where
  "triggerObserver 0 ty tgt pth vnew vold s = (Inl OutOfFuel, s)"
| "triggerObserver (Suc n) ty tgt pth vnew vold s =
     (case map_get s tgt of
        None \<Rightarrow> (Inl MissingInfo, s)
      | Some i \<Rightarrow>
          let s1 = call_all i
                     \<lparr>etype = ty, target = tgt, path = pth, valueNew = vnew, valueOld = vold\<rparr> s
          in if parent i \<noteq> VNull
             then triggerObserver n ty (parent i)
                    (VStr (to_String (name i) @ ''.'' @ to_String pth)) vnew vold s1
             else (Inr (), s1))"

section \<open>Reading and writing properties\<close>

text \<open>
  \<open>Reflect.get\<close> and \<open>Reflect.set\<close> on the target, for the properties the store holds:
  the own properties of a plain object, the elements and the \<open>length\<close> of an array, the
  elements of a typed array. Any other property reads as \<open>undefined\<close> and writing it
  leaves the store as it is: inherited properties (\<open>constructor\<close>, \<open>toString\<close>) and
  accessor properties are not in the store, and neither is a write to the \<open>length\<close> of
  an array, which in JavaScript truncates the array or throws a \<open>RangeError\<close>. The
  theorems below read and write own properties and array elements only.
  An array element beyond the end is written the way JavaScript does it, the gap reading
  as \<open>undefined\<close>.
\<close>

fun Reflect_get :: "obj \<Rightarrow> pkey \<Rightarrow> val" where
  "Reflect_get (Plain fs) k = (case map_of fs k of None \<Rightarrow> VUndef | Some v \<Rightarrow> v)"
| "Reflect_get (Arr xs) (Index i) = (if i < length xs then xs ! i else VUndef)"
| "Reflect_get (Arr xs) (Name n) = (if n = ''length'' then VNum (int (length xs)) else VUndef)"
| "Reflect_get (TypedArr tk xs) (Index i) = (if i < length xs then VNum (xs ! i) else VUndef)"
| "Reflect_get ob k = VUndef"

fun put :: "('k \<times> 'v) list \<Rightarrow> 'k \<Rightarrow> 'v \<Rightarrow> ('k \<times> 'v) list" where
  "put [] k v = [(k, v)]"
| "put ((k', v') # fs) k v = (if k' = k then (k, v) # fs else (k', v') # put fs k v)"

text \<open>The conversion of a stored value to the element type of a typed array. A number
  and a boolean are converted; the conversion of a string by its numeric value is not
  in the model, which takes every other value as 0.\<close>

fun to_int :: "val \<Rightarrow> int" where
  "to_int (VNum i) = i"
| "to_int (VBool b) = (if b then 1 else 0)"
| "to_int v = 0"

fun coerce :: "tkind \<Rightarrow> int \<Rightarrow> int" where
  "coerce Uint8 x = x mod 256"
| "coerce Int8 x = (x + 128) mod 256 - 128"
| "coerce Uint8Clamped x = (if x < 0 then 0 else if 255 < x then 255 else x)"
| "coerce Uint16 x = x mod 65536"
| "coerce Int16 x = (x + 32768) mod 65536 - 32768"
| "coerce Uint32 x = x mod 4294967296"
| "coerce Int32 x = (x + 2147483648) mod 4294967296 - 2147483648"

fun Reflect_set :: "obj \<Rightarrow> pkey \<Rightarrow> val \<Rightarrow> obj" where
  "Reflect_set (Plain fs) k v = Plain (put fs k v)"
| "Reflect_set (Arr xs) (Index i) v =
     (if i < length xs then Arr (xs[i := v])
      else Arr (xs @ replicate (i - length xs) VUndef @ [v]))"
| "Reflect_set (TypedArr tk xs) (Index i) v =
     (if i < length xs then TypedArr tk (xs[i := coerce tk (to_int v)]) else TypedArr tk xs)"
| "Reflect_set ob k v = ob"

text \<open>A proxy with its target: the target's address, the \<open>strict\<close> of the handler's
  closure, and the target object.\<close>

definition facade :: "state \<Rightarrow> addr \<Rightarrow> (addr \<times> bool \<times> obj) option" where
  "facade s p =
     (case obj_at s p of
        Some (Proxy t st) \<Rightarrow>
          (case obj_at s t of Some ob \<Rightarrow> Some (t, st, ob) | None \<Rightarrow> None)
      | _ \<Rightarrow> None)"

text \<open>The \<open>get\<close> trap for a property that is not a modifying method.\<close>

definition get_trap :: "state \<Rightarrow> addr \<Rightarrow> pkey \<Rightarrow> val" where
  "get_trap s proxy p =
     (case facade s proxy of Some (t, st, ob) \<Rightarrow> Reflect_get ob p | None \<Rightarrow> VUndef)"

definition isObservable :: "val \<Rightarrow> state \<Rightarrow> bool result" where
  "isObservable object s =
     (if typeof object \<noteq> TObject then (Inl ArgumentNotObject, s)
      else (Inr (map_has s object), s))"

text \<open>
  The \<open>set\<close> trap, whose text is the same in all five handlers. \<open>mk\<close> is the recursive
  call of \<open>makeObservable\<close>.
\<close>

definition set_trap ::
  "(val \<Rightarrow> val \<Rightarrow> val \<Rightarrow> bool \<Rightarrow> state \<Rightarrow> val result) \<Rightarrow> nat \<Rightarrow>
   addr \<Rightarrow> pkey \<Rightarrow> val \<Rightarrow> state \<Rightarrow> bool result" where
  "set_trap mk n proxy p vnew s =
     (case facade s proxy of
        None \<Rightarrow> (Inl OutsideModel, s)
      | Some (tgt, strict, ob) \<Rightarrow>
          let vold = Reflect_get ob p in
          bind (if typeof vnew = TObject
                then bind (isObservable vnew)
                       (\<lambda>b. if \<not> b then mk vnew (VStr (key_String p)) (VObj proxy) strict
                            else ret vnew)
                else ret vnew)
            (\<lambda>v s1.
               case obj_at s1 tgt of
                 None \<Rightarrow> (Inl OutsideModel, s1)
               | Some ob1 \<Rightarrow>
                   bind (triggerObserver n Change (VObj proxy) (VStr (key_String p)) v vold)
                     (\<lambda>u. ret True) (store tgt (Reflect_set ob1 p v) s1)) s)"

text \<open>The \<open>deleteProperty\<close> trap of the plain object, array and typed array handlers
  (the Set and Map handlers return \<open>false\<close> and do nothing). An element of a typed array
  cannot be deleted; a deleted array element leaves a gap.\<close>

fun Reflect_deleteProperty :: "obj \<Rightarrow> pkey \<Rightarrow> obj \<times> bool" where
  "Reflect_deleteProperty (Plain fs) k = (Plain (filter (\<lambda>f. fst f \<noteq> k) fs), True)"
| "Reflect_deleteProperty (Arr xs) (Index i) =
     (if i < length xs then Arr (xs[i := VUndef]) else Arr xs, True)"
| "Reflect_deleteProperty (TypedArr tk xs) (Index i) = (TypedArr tk xs, \<not> i < length xs)"
| "Reflect_deleteProperty ob k = (ob, True)"

definition deleteProperty_trap :: "nat \<Rightarrow> addr \<Rightarrow> pkey \<Rightarrow> state \<Rightarrow> bool result" where
  "deleteProperty_trap n proxy p s =
     (case facade s proxy of
        None \<Rightarrow> (Inl OutsideModel, s)
      | Some (tgt, strict, ob) \<Rightarrow>
          (case ob of
             SetO xs \<Rightarrow> (Inr False, s)
           | WeakSetO xs \<Rightarrow> (Inr False, s)
           | MapO kvs \<Rightarrow> (Inr False, s)
           | WeakMapO kvs \<Rightarrow> (Inr False, s)
           | _ \<Rightarrow>
              let vold = Reflect_get ob p;
                  (ob1, result) = Reflect_deleteProperty ob p
              in bind (triggerObserver n Delete (VObj proxy) (VStr (key_String p)) VUndef vold)
                   (\<lambda>u. ret result) (store tgt ob1 s)))"

section \<open>The wrappers of the modifying methods\<close>

definition arg :: "val list \<Rightarrow> nat \<Rightarrow> val" where
  "arg args i = (if i < length args then args ! i else VUndef)"

text \<open>
  The built-in methods that the \<open>get\<close> traps intercept, applied to the target: the new
  contents of the target and the method's result. A \<open>WeakSet\<close> member and a \<open>WeakMap\<close>
  key must be objects. A method that is not listed is outside the model.
\<close>

definition Set_method :: "string \<Rightarrow> addr \<Rightarrow> obj \<Rightarrow> val list \<Rightarrow> error + obj \<times> val" where
  "Set_method p this ob args =
     (case ob of
        SetO xs \<Rightarrow>
          if p = ''add''
          then Inr (SetO (if arg args 0 \<in> set xs then xs else xs @ [arg args 0]), VObj this)
          else if p = ''delete''
          then Inr (SetO (removeAll (arg args 0) xs), VBool (arg args 0 \<in> set xs))
          else if p = ''clear'' then Inr (SetO [], VUndef)
          else Inl OutsideModel
      | WeakSetO xs \<Rightarrow>
          if p = ''add''
          then (case arg args 0 of
                  VObj a \<Rightarrow>
                    Inr (WeakSetO (if VObj a \<in> set xs then xs else xs @ [VObj a]), VObj this)
                | _ \<Rightarrow> Inl TypeError)
          else if p = ''delete''
          then Inr (WeakSetO (removeAll (arg args 0) xs), VBool (arg args 0 \<in> set xs))
          else Inl OutsideModel
      | _ \<Rightarrow> Inl OutsideModel)"

definition Set_wrapper :: "nat \<Rightarrow> addr \<Rightarrow> string \<Rightarrow> val list \<Rightarrow> state \<Rightarrow> val result" where
  "Set_wrapper n proxy p args s =
     (case facade s proxy of
        None \<Rightarrow> (Inl OutsideModel, s)
      | Some (tgt, strict, ob) \<Rightarrow>
          (case Set_method p tgt ob args of
             Inl e \<Rightarrow> (Inl e, s)
           | Inr (ob1, result) \<Rightarrow>
               bind (if p = ''add''
                     then triggerObserver n Change (VObj proxy) (VStr ''*'') (arg args 0) VUndef
                     else if p = ''delete''
                     then triggerObserver n Change (VObj proxy) (VStr ''*'') VUndef (arg args 0)
                     else if p = ''clear''
                     then triggerObserver n Change (VObj proxy) (VStr ''*'') VUndef VUndef
                     else ret ())
                 (\<lambda>u. ret result) (store tgt ob1 s)))"

definition Map_get :: "obj \<Rightarrow> val \<Rightarrow> val" where
  "Map_get ob k =
     (case ob of
        MapO kvs \<Rightarrow> (case map_of kvs k of None \<Rightarrow> VUndef | Some v \<Rightarrow> v)
      | WeakMapO kvs \<Rightarrow> (case map_of kvs k of None \<Rightarrow> VUndef | Some v \<Rightarrow> v)
      | _ \<Rightarrow> VUndef)"

definition Map_method :: "string \<Rightarrow> addr \<Rightarrow> obj \<Rightarrow> val list \<Rightarrow> error + obj \<times> val" where
  "Map_method p this ob args =
     (case ob of
        MapO kvs \<Rightarrow>
          if p = ''set'' then Inr (MapO (put kvs (arg args 0) (arg args 1)), VObj this)
          else if p = ''delete''
          then Inr (MapO (filter (\<lambda>e. fst e \<noteq> arg args 0) kvs),
                    VBool (arg args 0 \<in> set (map fst kvs)))
          else if p = ''clear'' then Inr (MapO [], VUndef)
          else Inl OutsideModel
      | WeakMapO kvs \<Rightarrow>
          if p = ''set''
          then (case arg args 0 of
                  VObj a \<Rightarrow> Inr (WeakMapO (put kvs (VObj a) (arg args 1)), VObj this)
                | _ \<Rightarrow> Inl TypeError)
          else if p = ''delete''
          then Inr (WeakMapO (filter (\<lambda>e. fst e \<noteq> arg args 0) kvs),
                    VBool (arg args 0 \<in> set (map fst kvs)))
          else Inl OutsideModel
      | _ \<Rightarrow> Inl OutsideModel)"

definition Map_wrapper :: "nat \<Rightarrow> addr \<Rightarrow> string \<Rightarrow> val list \<Rightarrow> state \<Rightarrow> val result" where
  "Map_wrapper n proxy p args s =
     (case facade s proxy of
        None \<Rightarrow> (Inl OutsideModel, s)
      | Some (tgt, strict, ob) \<Rightarrow>
          let vold = (if p = ''set'' then Map_get ob (arg args 0) else VUndef) in
          (case Map_method p tgt ob args of
             Inl e \<Rightarrow> (Inl e, s)
           | Inr (ob1, result) \<Rightarrow>
               bind (if p = ''set''
                     then triggerObserver n Change (VObj proxy) (arg args 0) (arg args 1) vold
                     else if p = ''delete''
                     then triggerObserver n Change (VObj proxy) (arg args 0) VUndef (arg args 1)
                     else if p = ''clear''
                     then triggerObserver n Change (VObj proxy) (VStr ''*'') VUndef VUndef
                     else ret ())
                 (\<lambda>u. ret result) (store tgt ob1 s)))"

text \<open>Of the array methods, \<open>splice\<close> and \<open>sort\<close> are left out.\<close>

definition Array_method :: "string \<Rightarrow> addr \<Rightarrow> obj \<Rightarrow> val list \<Rightarrow> error + obj \<times> val" where
  "Array_method p this ob args =
     (case ob of
        Arr xs \<Rightarrow>
          if p = ''push'' then Inr (Arr (xs @ args), VNum (int (length (xs @ args))))
          else if p = ''pop''
          then Inr (Arr (butlast xs), if xs = [] then VUndef else last xs)
          else if p = ''unshift'' then Inr (Arr (args @ xs), VNum (int (length (args @ xs))))
          else if p = ''shift''
          then Inr (Arr (tl xs), if xs = [] then VUndef else hd xs)
          else if p = ''reverse'' then Inr (Arr (rev xs), VObj this)
          else Inl OutsideModel
      | _ \<Rightarrow> Inl OutsideModel)"

definition Array_wrapper :: "nat \<Rightarrow> addr \<Rightarrow> string \<Rightarrow> val list \<Rightarrow> state \<Rightarrow> val result" where
  "Array_wrapper n proxy p args s =
     (case facade s proxy of
        None \<Rightarrow> (Inl OutsideModel, s)
      | Some (tgt, strict, ob) \<Rightarrow>
          (case Array_method p tgt ob args of
             Inl e \<Rightarrow> (Inl e, s)
           | Inr (ob1, result) \<Rightarrow>
               let s1 = store tgt ob1 s;
                   len = to_int (get_trap s1 proxy (Name ''length''))
               in bind (if p = ''push''
                        then triggerObserver n Change (VObj proxy)
                               (VStr (to_String (VNum len))) (arg args 0) VUndef
                        else if p = ''pop''
                        then triggerObserver n Change (VObj proxy)
                               (VStr (to_String (VNum (len + 1)))) VUndef result
                        else if p = ''unshift''
                        then triggerObserver n Change (VObj proxy)
                               (VStr (to_String (VNum 0))) (arg args 0) VUndef
                        else if p = ''shift''
                        then triggerObserver n Change (VObj proxy)
                               (VStr (to_String (VNum 0))) VUndef result
                        else if p = ''reverse''
                        then triggerObserver n Change (VObj proxy) (VStr ''*'') VUndef VUndef
                        else ret ())
                    (\<lambda>u. ret result) s1))"

text \<open>
  A relative index of \<open>slice\<close> and \<open>fill\<close>: a negative one counts from the end, a missing
  one is the default, and the result is clamped to the length.
\<close>

definition rel_index :: "nat \<Rightarrow> nat \<Rightarrow> val \<Rightarrow> nat" where
  "rel_index len dflt v =
     (if v = VUndef then dflt
      else if to_int v < 0 then nat (max (int len + to_int v) 0)
      else min (nat (to_int v)) len)"

definition typed_slice :: "obj \<Rightarrow> val \<Rightarrow> val \<Rightarrow> obj" where
  "typed_slice ob start fin =
     (case ob of
        TypedArr tk xs \<Rightarrow>
          let b = rel_index (length xs) 0 start; e = rel_index (length xs) (length xs) fin
          in TypedArr tk (take (e - b) (drop b xs))
      | _ \<Rightarrow> ob)"

definition typed_fill :: "obj \<Rightarrow> val \<Rightarrow> val \<Rightarrow> val \<Rightarrow> obj" where
  "typed_fill ob v start fin =
     (case ob of
        TypedArr tk xs \<Rightarrow>
          let b = rel_index (length xs) 0 start; e = rel_index (length xs) (length xs) fin
          in if b < e
             then TypedArr tk (take b xs @ replicate (e - b) (coerce tk (to_int v)) @ drop e xs)
             else TypedArr tk xs
      | _ \<Rightarrow> ob)"

text \<open>Of the typed array methods, \<open>fill\<close> and \<open>reverse\<close> are modelled; \<open>this\<close> is the
  target, to which the wrapper is bound.\<close>

definition TypedArray_wrapper ::
  "nat \<Rightarrow> addr \<Rightarrow> string \<Rightarrow> val list \<Rightarrow> state \<Rightarrow> val result" where
  "TypedArray_wrapper n proxy p args s =
     (case facade s proxy of
        Some (this, strict, TypedArr tk xs) \<Rightarrow>
          if p = ''fill''
          then let (vold, s1) = alloc (typed_slice (TypedArr tk xs) (arg args 1) (arg args 2)) s;
                   ob1 = typed_fill (TypedArr tk xs) (arg args 0) (arg args 1) (arg args 2);
                   s2 = store this ob1 s1;
                   (vnew, s3) = alloc (typed_slice ob1 (arg args 1) (arg args 2)) s2
               in bind (triggerObserver n Change (VObj proxy) (arg args 1) (VObj vnew) (VObj vold))
                    (\<lambda>u. ret (VObj this)) s3
          else if p = ''reverse''
          then let (vold, s1) = alloc (typed_slice (TypedArr tk xs) (VNum 0) VUndef) s;
                   s2 = store this (TypedArr tk (rev xs)) s1
               in bind (triggerObserver n Change (VObj proxy) (VStr (to_String (VNum 0)))
                          (VObj this) (VObj vold))
                    (\<lambda>u. ret (VObj this)) s2
          else (Inl OutsideModel, s)
      | _ \<Rightarrow> (Inl OutsideModel, s))"

section \<open>makeObservable\<close>

definition addInfo :: "val \<Rightarrow> val \<Rightarrow> val \<Rightarrow> addr \<Rightarrow> state \<Rightarrow> state" where
  "addInfo ob nm par proxy s =
     s\<lparr>observableMap := (observableMap s)(proxy \<mapsto>
          \<lparr>raw = ob, name = nm, parent = par, callbacks = [], paused = (\<lambda>cb. None)\<rparr>)\<rparr>"

text \<open>\<open>new Proxy(obj, handler)\<close> followed by \<open>addInfo(proxy)\<close>.\<close>

definition new_Proxy :: "addr \<Rightarrow> val \<Rightarrow> val \<Rightarrow> bool \<Rightarrow> state \<Rightarrow> addr \<times> state" where
  "new_Proxy a nm par strict s =
     (let (proxy, s1) = alloc (Proxy a strict) s in (proxy, addInfo (VObj a) nm par proxy s1))"

text \<open>One round of the loop over the keys of a plain object or the indices of an array:
  \<open>if (typeof proxy[k] === "object") proxy[k] = makeObservable(proxy[k], k, proxy, strict)\<close>.\<close>

definition wrap_member ::
  "(val \<Rightarrow> val \<Rightarrow> val \<Rightarrow> bool \<Rightarrow> state \<Rightarrow> val result) \<Rightarrow> nat \<Rightarrow>
   addr \<Rightarrow> bool \<Rightarrow> pkey \<Rightarrow> state \<Rightarrow> unit result" where
  "wrap_member mk n proxy strict k s =
     (if typeof (get_trap s proxy k) = TObject
      then bind (mk (get_trap s proxy k) (VStr (key_String k)) (VObj proxy) strict)
             (\<lambda>w. bind (set_trap mk n proxy k w) (\<lambda>b. ret ())) s
      else (Inr (), s))"

text \<open>One round of the loop over the items of a Set: the item is deleted and its
  observable added.\<close>

definition wrap_item ::
  "(val \<Rightarrow> val \<Rightarrow> val \<Rightarrow> bool \<Rightarrow> state \<Rightarrow> val result) \<Rightarrow> nat \<Rightarrow>
   addr \<Rightarrow> bool \<Rightarrow> val \<Rightarrow> state \<Rightarrow> unit result" where
  "wrap_item mk n proxy strict item s =
     (if typeof item = TObject
      then bind (Set_wrapper n proxy ''delete'' [item])
             (\<lambda>d. bind (mk item (VStr []) (VObj proxy) strict)
                (\<lambda>w. bind (Set_wrapper n proxy ''add'' [w]) (\<lambda>r. ret ()))) s
      else (Inr (), s))"

text \<open>One round of the loop over the entries of a Map.\<close>

definition wrap_entry ::
  "(val \<Rightarrow> val \<Rightarrow> val \<Rightarrow> bool \<Rightarrow> state \<Rightarrow> val result) \<Rightarrow> nat \<Rightarrow>
   addr \<Rightarrow> bool \<Rightarrow> val \<times> val \<Rightarrow> state \<Rightarrow> unit result" where
  "wrap_entry mk n proxy strict e s =
     (if typeof (snd e) = TObject
      then bind (Map_wrapper n proxy ''delete'' [fst e])
             (\<lambda>d. bind (mk (snd e) (fst e) (VObj proxy) strict)
                (\<lambda>w. bind (Map_wrapper n proxy ''set'' [fst e, w]) (\<lambda>r. ret ()))) s
      else (Inr (), s))"

text \<open>The loop \<open>for (let i = 0; i < proxy.length; i++)\<close>, which reads the length in
  every round.\<close>

primrec array_loop ::
  "nat \<Rightarrow> (pkey \<Rightarrow> state \<Rightarrow> unit result) \<Rightarrow> addr \<Rightarrow> nat \<Rightarrow> state \<Rightarrow> unit result" where
  "array_loop 0 body proxy i s = (Inl OutOfFuel, s)"
| "array_loop (Suc k) body proxy i s =
     (if int i < to_int (get_trap s proxy (Name ''length''))
      then (case body (Index i) s of
              (Inl e, s1) \<Rightarrow> (Inl e, s1)
            | (Inr u, s1) \<Rightarrow> array_loop k body proxy (Suc i) s1)
      else (Inr (), s))"

text \<open>
  \<open>Object.keys\<close> of a plain object: the keys that are array indices (the canonical
  decimal strings below \<open>2\<^sup>3\<^sup>2 - 1\<close>) in ascending order, then the other keys in the
  order in which the properties were created. The list of a plain object holds one entry
  for each own property, in the order of creation.
\<close>

fun array_index :: "pkey \<Rightarrow> bool" where
  "array_index (Index i) = (i < 4294967295)"
| "array_index (Name n) = False"

fun index_of :: "pkey \<Rightarrow> nat" where
  "index_of (Index i) = i"
| "index_of (Name n) = 0"

definition Object_keys :: "(pkey \<times> val) list \<Rightarrow> pkey list" where
  "Object_keys fs =
     map Index (sort (map index_of (filter array_index (map fst fs)))) @
     filter (\<lambda>k. \<not> array_index k) (map fst fs)"

text \<open>
  The fuel bounds the depth of the recursion (and the rounds of the array loop); the
  source recurses for as long as it finds an object that is not an observable.
  \<open>null\<close> passes the \<open>typeof\<close> test and the \<open>instanceof\<close> tests, and
  \<open>Object.getPrototypeOf(null)\<close> throws a \<open>TypeError\<close>.
\<close>

primrec makeObservable ::
  "nat \<Rightarrow> val \<Rightarrow> val \<Rightarrow> val \<Rightarrow> bool \<Rightarrow> state \<Rightarrow> val result" where
  "makeObservable 0 ob nm par strict s = (Inl OutOfFuel, s)"
| "makeObservable (Suc n) ob nm par strict s =
     (if typeof ob \<noteq> TObject then (Inl NotAnObject, s)
      else if map_has s ob then (Inr ob, s)
      else
        (case ob of
           VObj a \<Rightarrow>
             (case obj_at s a of
                None \<Rightarrow> (Inl OutsideModel, s)
              | Some (SetO xs) \<Rightarrow>
                  (let (proxy, s1) = new_Proxy a nm par strict s
                   in bind (for_each (wrap_item (makeObservable n) n proxy strict) xs)
                        (\<lambda>u. ret (VObj proxy)) s1)
              | Some (WeakSetO xs) \<Rightarrow>
                  (let (proxy, s1) = new_Proxy a nm par strict s in (Inr (VObj proxy), s1))
              | Some (MapO kvs) \<Rightarrow>
                  (let (proxy, s1) = new_Proxy a nm par strict s
                   in bind (for_each (wrap_entry (makeObservable n) n proxy strict) kvs)
                        (\<lambda>u. ret (VObj proxy)) s1)
              | Some (WeakMapO kvs) \<Rightarrow>
                  (let (proxy, s1) = new_Proxy a nm par strict s in (Inr (VObj proxy), s1))
              | Some (TypedArr tk xs) \<Rightarrow>
                  (let (proxy, s1) = new_Proxy a nm par strict s in (Inr (VObj proxy), s1))
              | Some (Arr xs) \<Rightarrow>
                  (let (proxy, s1) = new_Proxy a nm par strict s
                   in bind (array_loop n (wrap_member (makeObservable n) n proxy strict) proxy 0)
                        (\<lambda>u. ret (VObj proxy)) s1)
              | Some (Plain fs) \<Rightarrow>
                  (let (proxy, s1) = new_Proxy a nm par strict s
                   in bind (for_each (wrap_member (makeObservable n) n proxy strict)
                              (Object_keys fs))
                        (\<lambda>u. ret (VObj proxy)) s1)
              | Some (Opaque k) \<Rightarrow> (Inr ob, s)
              | Some Other \<Rightarrow> (if strict then (Inl UnsupportedType, s) else (Inr ob, s))
              | Some (Proxy t st) \<Rightarrow> (Inl OutsideModel, s))
         | _ \<Rightarrow> (Inl TypeError, s)))"

section \<open>The API\<close>

definition observable :: "nat \<Rightarrow> val \<Rightarrow> bool \<Rightarrow> state \<Rightarrow> val result" where
  "observable n ob strict s =
     bind (isObservable ob)
       (\<lambda>b. if b then ret ob else makeObservable n ob (VStr []) VNull strict) s"

definition raw_of :: "val \<Rightarrow> state \<Rightarrow> val result" where
  "raw_of ob s =
     bind (isObservable ob)
       (\<lambda>b s1. if \<not> b then (Inl NotObservable, s1)
               else (case map_get s1 ob of
                       None \<Rightarrow> (Inl TypeError, s1)
                     | Some i \<Rightarrow> (Inr (raw i), s1))) s"

text \<open>The handle that \<open>observer\<close> returns closes over the information object of the
  observable and the callback.\<close>

datatype handle = Handle addr callback

definition observer :: "val \<Rightarrow> callback \<Rightarrow> state \<Rightarrow> handle result" where
  "observer ob cb s =
     bind (isObservable ob)
       (\<lambda>b s1. if \<not> b then (Inl NotObservable, s1)
               else (case ob of
                       VObj a \<Rightarrow>
                         (case observableMap s1 a of
                            None \<Rightarrow> (Inl TypeError, s1)
                          | Some i \<Rightarrow>
                              if cb \<in> set (callbacks i) then (Inl AlreadyRegistered, s1)
                              else (Inr (Handle a cb),
                                    s1\<lparr>observableMap := (observableMap s1)(a \<mapsto>
                                         i\<lparr>callbacks := callbacks i @ [cb],
                                           paused := (paused i)(cb \<mapsto> False)\<rparr>)\<rparr>))
                     | _ \<Rightarrow> (Inl TypeError, s1))) s"

fun pause :: "handle \<Rightarrow> state \<Rightarrow> unit result" where
  "pause (Handle a cb) s =
     (case observableMap s a of
        None \<Rightarrow> (Inl OutsideModel, s)
      | Some i \<Rightarrow>
          (Inr (), s\<lparr>observableMap := (observableMap s)(a \<mapsto>
                        i\<lparr>paused := (paused i)(cb \<mapsto> True)\<rparr>)\<rparr>))"

fun resume :: "handle \<Rightarrow> state \<Rightarrow> unit result" where
  "resume (Handle a cb) s =
     (case observableMap s a of
        None \<Rightarrow> (Inl OutsideModel, s)
      | Some i \<Rightarrow>
          (Inr (), s\<lparr>observableMap := (observableMap s)(a \<mapsto>
                        i\<lparr>paused := (paused i)(cb \<mapsto> False)\<rparr>)\<rparr>))"

fun destroy :: "handle \<Rightarrow> state \<Rightarrow> unit result" where
  "destroy (Handle a cb) s =
     (case observableMap s a of
        None \<Rightarrow> (Inl OutsideModel, s)
      | Some i \<Rightarrow>
          if cb \<notin> set (callbacks i) then (Inl NotRegistered, s)
          else (Inr (), s\<lparr>observableMap := (observableMap s)(a \<mapsto>
                             i\<lparr>callbacks := removeAll cb (callbacks i)\<rparr>)\<rparr>))"

section \<open>Programs that use the library\<close>

text \<open>A program starts with the objects it has built and with nothing observed.\<close>

definition init :: "obj list \<Rightarrow> state" where
  "init h = \<lparr>heap = h, observableMap = (\<lambda>a. None), calls = []\<rparr>"

text \<open>\<open>v[p]\<close> and \<open>v[p] = x\<close> on an observable \<open>v\<close>, and a call of a modifying method.\<close>

definition get_prop :: "val \<Rightarrow> pkey \<Rightarrow> state \<Rightarrow> val result" where
  "get_prop v p s =
     (case v of VObj a \<Rightarrow> (Inr (get_trap s a p), s) | _ \<Rightarrow> (Inl TypeError, s))"

definition set_prop :: "nat \<Rightarrow> val \<Rightarrow> pkey \<Rightarrow> val \<Rightarrow> state \<Rightarrow> bool result" where
  "set_prop n v p x s =
     (case v of
        VObj a \<Rightarrow> set_trap (makeObservable n) n a p x s
      | _ \<Rightarrow> (Inl TypeError, s))"

definition call_method :: "nat \<Rightarrow> val \<Rightarrow> string \<Rightarrow> val list \<Rightarrow> state \<Rightarrow> val result" where
  "call_method n v p args s =
     (case v of
        VObj a \<Rightarrow>
          (case facade s a of
             Some (t, st, SetO xs) \<Rightarrow> Set_wrapper n a p args s
           | Some (t, st, WeakSetO xs) \<Rightarrow> Set_wrapper n a p args s
           | Some (t, st, MapO kvs) \<Rightarrow> Map_wrapper n a p args s
           | Some (t, st, WeakMapO kvs) \<Rightarrow> Map_wrapper n a p args s
           | Some (t, st, TypedArr tk xs) \<Rightarrow> TypedArray_wrapper n a p args s
           | Some (t, st, Arr xs) \<Rightarrow> Array_wrapper n a p args s
           | _ \<Rightarrow> (Inl TypeError, s))
      | _ \<Rightarrow> (Inl TypeError, s))"


text \<open>What each callback was told about the path, in the order of the calls.\<close>

definition paths_received :: "state \<Rightarrow> (callback \<times> val) list" where
  "paths_received s = map (\<lambda>c. (fst c, path (snd c))) (calls s)"

text \<open>
  The record \<open>{a: {b: {c: 1}}}\<close>, made observable; callback 1 observes the root,
  callback 2 the observable at \<open>root.a\<close>; then \<open>root.a.b.c = 2\<close>. The result is the
  root and the observable that callback 2 observes.
\<close>

definition nested_record :: state where
  "nested_record =
     init [Plain [(Name ''c'', VNum 1)], Plain [(Name ''b'', VObj 0)], Plain [(Name ''a'', VObj 1)]]"

definition bubbling :: "(val \<times> val) result" where
  "bubbling =
     bind (observable 16 (VObj 2) True) (\<lambda>root.
     bind (observer root 1) (\<lambda>h1.
     bind (get_prop root (Name ''a'')) (\<lambda>a.
     bind (observer a 2) (\<lambda>h2.
     bind (get_prop a (Name ''b'')) (\<lambda>b.
     bind (set_prop 16 b (Name ''c'') (VNum 2)) (\<lambda>r. ret (root, a)))))))
     nested_record"

text \<open>The same with callback 2 on the observable at \<open>root.a.b\<close>, the one that holds \<open>c\<close>.\<close>

definition bubbling_inner :: "(val \<times> val) result" where
  "bubbling_inner =
     bind (observable 16 (VObj 2) True) (\<lambda>root.
     bind (observer root 1) (\<lambda>h1.
     bind (get_prop root (Name ''a'')) (\<lambda>a.
     bind (get_prop a (Name ''b'')) (\<lambda>b.
     bind (observer b 2) (\<lambda>h2.
     bind (set_prop 16 b (Name ''c'') (VNum 2)) (\<lambda>r. ret (root, b)))))))
     nested_record"

text \<open>An object is made observable and observed by callback 1, then a modifying method
  is called on the observable.\<close>

definition observed_call :: "obj \<Rightarrow> string \<Rightarrow> val list \<Rightarrow> val result" where
  "observed_call ob p args =
     bind (observable 16 (VObj 0) True) (\<lambda>f.
     bind (observer f 1) (\<lambda>h. call_method 16 f p args))
     (init [ob])"

text \<open>The same object is passed to \<open>observable\<close> twice, and then the first result.\<close>

definition wrap_twice :: "obj \<Rightarrow> (val \<times> val \<times> val) result" where
  "wrap_twice ob =
     bind (observable 16 (VObj 0) True) (\<lambda>f1.
     bind (observable 16 (VObj 0) True) (\<lambda>f2.
     bind (observable 16 f1 True) (\<lambda>f3. ret (f1, f2, f3))))
     (init [ob])"

definition wrap_check :: "obj \<Rightarrow> (val \<times> bool) result" where
  "wrap_check ob =
     bind (observable 16 (VObj 0) True) (\<lambda>f.
     bind (isObservable f) (\<lambda>b. ret (f, b)))
     (init [ob])"

definition wrap_unwrap :: "obj \<Rightarrow> val result" where
  "wrap_unwrap ob = bind (observable 16 (VObj 0) True) raw_of (init [ob])"


section \<open>Members, coverage and what a step may change\<close>

text \<open>
  The members of an object that wrapping visits: the values of the properties of a plain
  object, the elements of an array, the items of a Set, the values of the entries of a
  Map. The members of a WeakSet or WeakMap cannot be listed and are not visited, the keys
  of a Map are not visited, and a typed array holds numbers only.
\<close>

datatype skey = PK pkey | VK val

fun slots :: "obj \<Rightarrow> (skey \<times> val) set" where
  "slots (Plain fs) = {(PK k, v) |k v. map_of fs k = Some v}"
| "slots (Arr xs) = {(PK (Index i), xs ! i) |i. i < length xs}"
| "slots (SetO xs) = {(VK v, v) |v. v \<in> set xs}"
| "slots (MapO kvs) = {(VK k, v) |k v. map_of kvs k = Some v}"
| "slots ob = {}"

text \<open>An object without its contents: what \<open>instanceof\<close> sees. No step of the library
  changes it.\<close>

fun erase :: "obj \<Rightarrow> obj" where
  "erase (Plain fs) = Plain []"
| "erase (Arr xs) = Arr []"
| "erase (SetO xs) = SetO []"
| "erase (WeakSetO xs) = WeakSetO []"
| "erase (MapO kvs) = MapO []"
| "erase (WeakMapO kvs) = WeakMapO []"
| "erase (TypedArr tk xs) = TypedArr tk []"
| "erase ob = ob"

text \<open>The objects for which \<open>makeObservable\<close> builds no proxy: \<open>Error\<close>, \<open>Date\<close> and
  \<open>RegExp\<close> objects, which it returns as they are, and the objects of an unsupported
  type, which it returns as they are when \<open>strict\<close> is false and refuses when \<open>strict\<close>
  is true. If \<open>makeObservable\<close> returns such an object, it is the argument itself.\<close>

fun is_passed :: "obj \<Rightarrow> bool" where
  "is_passed (Opaque k) = True"
| "is_passed Other = True"
| "is_passed ob = False"

fun passed_through :: "state \<Rightarrow> val \<Rightarrow> bool" where
  "passed_through s (VObj a) = (a < length (heap s) \<and> is_passed (heap s ! a))"
| "passed_through s v = False"

text \<open>A value that wrapping would have to replace: an object (or \<open>null\<close>) that is neither
  an observable nor passed through.\<close>

definition unwrapped :: "state \<Rightarrow> val \<Rightarrow> bool" where
  "unwrapped s v \<longleftrightarrow> typeof v = TObject \<and> \<not> map_has s v \<and> \<not> passed_through s v"

text \<open>The members of the object at an address that are still unwrapped.\<close>

definition bad :: "state \<Rightarrow> addr \<Rightarrow> (skey \<times> val) set" where
  "bad s a = (if a < length (heap s) then {kv \<in> slots (heap s ! a). unwrapped s (snd kv)} else {})"

text \<open>
  What every step of \<open>makeObservable\<close> keeps: the store only grows; the entries of
  \<open>observableMap\<close> for the objects that exist stay as they are, and no entry is removed;
  no object changes its kind; no object gets a new unwrapped member; a property that
  holds an object goes on holding one; the calls made so far stay; and no object of an
  unsupported type is created.
\<close>

definition step_ok :: "state \<Rightarrow> state \<Rightarrow> bool" where
  "step_ok s s' \<longleftrightarrow>
     length (heap s) \<le> length (heap s') \<and>
     (\<forall>a. a < length (heap s) \<or> length (heap s') \<le> a \<longrightarrow> observableMap s' a = observableMap s a) \<and>
     (\<forall>a. observableMap s a \<noteq> None \<longrightarrow> observableMap s' a \<noteq> None) \<and>
     (\<forall>a < length (heap s). erase (heap s' ! a) = erase (heap s ! a)) \<and>
     (\<forall>a. bad s' a \<subseteq> bad s a) \<and>
     (\<forall>a < length (heap s). \<forall>k. typeof (Reflect_get (heap s ! a) k) = TObject \<longrightarrow>
        typeof (Reflect_get (heap s' ! a) k) = TObject) \<and>
     (\<exists>cs. calls s' = calls s @ cs) \<and>
     (\<forall>a < length (heap s'). heap s' ! a = Other \<longrightarrow> a < length (heap s) \<and> heap s ! a = Other)"

text \<open>The proxies built between two states have targets without unwrapped members.\<close>

definition fresh_covered :: "state \<Rightarrow> state \<Rightarrow> bool" where
  "fresh_covered s s' \<longleftrightarrow>
     (\<forall>p t st. length (heap s) \<le> p \<longrightarrow> p < length (heap s') \<longrightarrow>
        heap s' ! p = Proxy t st \<longrightarrow> bad s' t = {})"

text \<open>What the induction on the depth of the recursion proves of \<open>makeObservable\<close>.\<close>

definition wraps :: "(val \<Rightarrow> val \<Rightarrow> val \<Rightarrow> bool \<Rightarrow> state \<Rightarrow> val result) \<Rightarrow> bool" where
  "wraps mk \<longleftrightarrow>
     (\<forall>ob nm par strict s r s'. mk ob nm par strict s = (r, s') \<longrightarrow>
        step_ok s s' \<and>
        (\<forall>v. r = Inr v \<longrightarrow> typeof v = TObject \<and> \<not> unwrapped s' v \<and> fresh_covered s s'))"

text \<open>The objects for which \<open>makeObservable\<close> builds a proxy.\<close>

fun facade_kind :: "obj \<Rightarrow> bool" where
  "facade_kind (Opaque k) = False"
| "facade_kind Other = False"
| "facade_kind (Proxy t st) = False"
| "facade_kind ob = True"

text \<open>The loop that follows \<open>addInfo\<close> in the branch of each kind of object.\<close>

definition children ::
  "(val \<Rightarrow> val \<Rightarrow> val \<Rightarrow> bool \<Rightarrow> state \<Rightarrow> val result) \<Rightarrow> nat \<Rightarrow>
   addr \<Rightarrow> bool \<Rightarrow> obj \<Rightarrow> state \<Rightarrow> unit result" where
  "children mk n p strict ob =
     (case ob of
        SetO xs \<Rightarrow> for_each (wrap_item mk n p strict) xs
      | MapO kvs \<Rightarrow> for_each (wrap_entry mk n p strict) kvs
      | Arr xs \<Rightarrow> array_loop n (wrap_member mk n p strict) p 0
      | Plain fs \<Rightarrow> for_each (wrap_member mk n p strict) (Object_keys fs)
      | _ \<Rightarrow> ret ())"



fun is_opaque :: "obj \<Rightarrow> bool" where
  "is_opaque (Opaque k) = True"
| "is_opaque ob = False"

fun opaque :: "state \<Rightarrow> val \<Rightarrow> bool" where
  "opaque s (VObj a) = (a < length (heap s) \<and> is_opaque (heap s ! a))"
| "opaque s v = False"


text \<open>
  The array \<open>[7, {x: 1}]\<close> and a \<open>Date\<close> in the record \<open>{k: date, e: array}\<close>, with
  nothing observed.
\<close>

definition mixed_graph :: state where
  "mixed_graph =
     init [Opaque DateObj, Plain [(Name ''x'', VNum 1)], Arr [VNum 7, VObj 1],
           Plain [(Name ''k'', VObj 0), (Name ''e'', VObj 2)]]"

text \<open>An observable plain object with callback 7 registered.\<close>

definition observed_state :: state where
  "observed_state =
     \<lparr>heap = [Plain [], Proxy 0 True],
      observableMap = (\<lambda>a. None)(1 \<mapsto>
        \<lparr>raw = VObj 0, name = VStr [], parent = VNull, callbacks = [7],
         paused = (\<lambda>cb. None)(7 \<mapsto> False)\<rparr>),
      calls = []\<rparr>"

text \<open>The states after \<open>observable(root)\<close> on the two object graphs.\<close>

definition nested_observed :: state where
  "nested_observed = snd (observable 16 (VObj 2) True nested_record)"

definition mixed_observed :: state where
  "mixed_observed = snd (observable 16 (VObj 3) True mixed_graph)"

text \<open>How often a callback was called.\<close>

definition told :: "callback \<Rightarrow> (callback \<times> observation) list \<Rightarrow> nat" where
  "told cb cs = length (filter (\<lambda>c. fst c = cb) cs)"

text \<open>
  The observable of an empty plain object (object 0), observed by callback 1, and the
  value \<open>{x: {y: {z: 1}}, n: 5}\<close> (object 3), which is not an observable.
\<close>

definition assign_state :: state where
  "assign_state =
     \<lparr>heap = [Plain [], Plain [(Name ''z'', VNum 1)], Plain [(Name ''y'', VObj 1)],
              Plain [(Name ''x'', VObj 2), (Name ''n'', VNum 5)], Proxy 0 True],
      observableMap = (\<lambda>a. None)(4 \<mapsto>
        \<lparr>raw = VObj 0, name = VStr [], parent = VNull, callbacks = [1],
         paused = (\<lambda>cb. None)(1 \<mapsto> False)\<rparr>),
      calls = []\<rparr>"

definition assigned :: "bool result" where
  "assigned = set_trap (makeObservable 16) 16 4 (Name ''k'') (VObj 3) assign_state"

subsection \<open>Values that are trees of plain objects and arrays\<close>

text \<open>
  A value without sharing: a leaf, a plain object at an address with its properties, or
  an array at an address with its elements, each member holding a tree.
\<close>

datatype tree = Leaf val | Rec addr "(pkey \<times> tree) list" | Lst addr "tree list"

text \<open>The value at the root of a tree, the addresses of its objects, and the number of
  its members, at any depth, that hold an object (a member that holds an observable or an
  object that is passed through counts: the loop assigns it, too).\<close>

fun root_of :: "tree \<Rightarrow> val" where
  "root_of (Leaf v) = v"
| "root_of (Rec a kts) = VObj a"
| "root_of (Lst a ts) = VObj a"

fun addrs :: "tree \<Rightarrow> addr set" where
  "addrs (Leaf v) = {}"
| "addrs (Rec a kts) = insert a (\<Union>kt\<in>set kts. addrs (snd kt))"
| "addrs (Lst a ts) = insert a (\<Union>t\<in>set ts. addrs t)"

fun nslots :: "tree \<Rightarrow> nat" where
  "nslots (Leaf v) = 0"
| "nslots (Rec a kts) =
     sum_list (map (\<lambda>kt. (if typeof (root_of (snd kt)) = TObject then 1 else 0) + nslots (snd kt)) kts)"
| "nslots (Lst a ts) =
     sum_list (map (\<lambda>t. (if typeof (root_of t) = TObject then 1 else 0) + nslots t) ts)"

text \<open>A depth of recursion that is enough to wrap the tree (the fuel also bounds the
  rounds of the loop over an array and the number of ancestors an event is passed to).\<close>

fun need :: "tree \<Rightarrow> nat" where
  "need (Leaf v) = 1"
| "need (Rec a kts) = 2 + sum_list (map (\<lambda>kt. need (snd kt)) kts)"
| "need (Lst a ts) = 2 + length ts + sum_list (map need ts)"

text \<open>A tree that is a plain object or an array.\<close>

fun node :: "tree \<Rightarrow> bool" where
  "node (Leaf v) = False"
| "node t = True"

text \<open>The tree of the value \<open>{x: {y: {z: 1}}, n: 5}\<close> in \<open>assign_state\<close>.\<close>

definition value_tree :: tree where
  "value_tree =
     Rec 3 [(Name ''x'', Rec 2 [(Name ''y'', Rec 1 [(Name ''z'', Leaf (VNum 1))])]),
            (Name ''n'', Leaf (VNum 5))]"

text \<open>
  The observable of an empty plain object (object 0), observed by callback 1, and a Set
  that holds one plain object; the assignment \<open>proxy.k = set\<close>.
\<close>

definition set_state :: state where
  "set_state =
     \<lparr>heap = [Plain [], Plain [(Name ''z'', VNum 1)], SetO [VObj 1], Proxy 0 True],
      observableMap = (\<lambda>a. None)(3 \<mapsto>
        \<lparr>raw = VObj 0, name = VStr [], parent = VNull, callbacks = [1],
         paused = (\<lambda>cb. None)(1 \<mapsto> False)\<rparr>),
      calls = []\<rparr>"

definition set_assigned :: "bool result" where
  "set_assigned = set_trap (makeObservable 16) 16 3 (Name ''k'') (VObj 2) set_state"

text \<open>The same with a Map that holds one plain object, and with a WeakSet.\<close>

definition map_state :: state where
  "map_state =
     \<lparr>heap = [Plain [], Plain [(Name ''z'', VNum 1)], MapO [(VStr ''a'', VObj 1)], Proxy 0 True],
      observableMap = (\<lambda>a. None)(3 \<mapsto>
        \<lparr>raw = VObj 0, name = VStr [], parent = VNull, callbacks = [1],
         paused = (\<lambda>cb. None)(1 \<mapsto> False)\<rparr>),
      calls = []\<rparr>"

definition map_assigned :: "bool result" where
  "map_assigned = set_trap (makeObservable 16) 16 3 (Name ''k'') (VObj 2) map_state"

definition weakset_state :: state where
  "weakset_state =
     \<lparr>heap = [Plain [], Plain [(Name ''z'', VNum 1)], WeakSetO [VObj 1], Proxy 0 True],
      observableMap = (\<lambda>a. None)(3 \<mapsto>
        \<lparr>raw = VObj 0, name = VStr [], parent = VNull, callbacks = [1],
         paused = (\<lambda>cb. None)(1 \<mapsto> False)\<rparr>),
      calls = []\<rparr>"

definition weakset_assigned :: "bool result" where
  "weakset_assigned = set_trap (makeObservable 16) 16 3 (Name ''k'') (VObj 2) weakset_state"

text \<open>
  The same observable and the array \<open>[{z: 1}, 3, date]\<close>; the assignment
  \<open>proxy.k = array\<close>.
\<close>

definition list_state :: state where
  "list_state =
     \<lparr>heap = [Plain [], Plain [(Name ''z'', VNum 1)], Opaque DateObj,
              Arr [VObj 1, VNum 3, VObj 2], Proxy 0 True],
      observableMap = (\<lambda>a. None)(4 \<mapsto>
        \<lparr>raw = VObj 0, name = VStr [], parent = VNull, callbacks = [1],
         paused = (\<lambda>cb. None)(1 \<mapsto> False)\<rparr>),
      calls = []\<rparr>"

definition list_assigned :: "bool result" where
  "list_assigned = set_trap (makeObservable 16) 16 4 (Name ''k'') (VObj 3) list_state"

text \<open>The sets of a list are pairwise disjoint.\<close>

fun apart :: "addr set list \<Rightarrow> bool" where
  "apart [] = True"
| "apart (A # As) = (A \<inter> \<Union>(set As) = {} \<and> apart As)"

text \<open>
  The values that \<open>makeObservable\<close>, called with this \<open>strict\<close>, returns as they are:
  an observable, an \<open>Error\<close>, \<open>Date\<close> or \<open>RegExp\<close> object, and, when \<open>strict\<close> is false, an
  object of an unsupported type.
\<close>

fun kept :: "bool \<Rightarrow> obj \<Rightarrow> bool" where
  "kept st (Opaque k) = True"
| "kept st Other = (\<not> st)"
| "kept st ob = False"

fun settled :: "bool \<Rightarrow> state \<Rightarrow> val \<Rightarrow> bool" where
  "settled st s (VObj a) =
     (observableMap s a \<noteq> None \<or> (a < length (heap s) \<and> kept st (heap s ! a)))"
| "settled st s v = False"

text \<open>
  The store holds the tree: a node is a plain object with exactly the properties of the
  tree, or an array with exactly its elements, and is not an observable; no object occurs
  twice; a leaf is a value that is not an object, or a value that \<open>makeObservable\<close>
  returns as it is. (\<open>null\<close> is no leaf: \<open>makeObservable(null)\<close> throws.)
\<close>

fun laid :: "bool \<Rightarrow> state \<Rightarrow> tree \<Rightarrow> bool" where
  "laid st s (Leaf v) = (typeof v \<noteq> TObject \<or> settled st s v)"
| "laid st s (Rec a kts) =
     (obj_at s a = Some (Plain (map (\<lambda>kt. (fst kt, root_of (snd kt))) kts)) \<and>
      observableMap s a = None \<and>
      distinct (map fst kts) \<and>
      (\<forall>kt\<in>set kts. laid st s (snd kt)) \<and>
      a \<notin> (\<Union>kt\<in>set kts. addrs (snd kt)) \<and>
      apart (map (\<lambda>kt. addrs (snd kt)) kts))"
| "laid st s (Lst a ts) =
     (obj_at s a = Some (Arr (map root_of ts)) \<and>
      observableMap s a = None \<and>
      (\<forall>t\<in>set ts. laid st s t) \<and>
      a \<notin> (\<Union>t\<in>set ts. addrs t) \<and>
      apart (map addrs ts))"

text \<open>The elements of an array with their keys.\<close>

fun indexed :: "nat \<Rightarrow> tree list \<Rightarrow> (pkey \<times> tree) list" where
  "indexed i [] = []"
| "indexed i (t # ts) = (Index i, t) # indexed (Suc i) ts"

text \<open>
  How often a callback is registered, not paused, on an observable; and the observables
  from \<open>q\<close> up to the root: \<open>chain cb s q L c\<close> holds if they are \<open>L\<close>, each with its entry in
  \<open>observableMap\<close>, and \<open>cb\<close> is registered and not paused \<open>c\<close> times on them in all. An
  event triggered at \<open>q\<close> then calls \<open>cb\<close> \<open>c\<close> times.
\<close>

definition active :: "callback \<Rightarrow> info \<Rightarrow> nat" where
  "active cb i = length (filter (\<lambda>c. c = cb \<and> paused i c \<noteq> Some True) (callbacks i))"

inductive chain :: "callback \<Rightarrow> state \<Rightarrow> addr \<Rightarrow> nat \<Rightarrow> nat \<Rightarrow> bool" for cb s where
  top: "observableMap s q = Some i \<Longrightarrow> parent i = VNull \<Longrightarrow> q < length (heap s) \<Longrightarrow>
        chain cb s q 1 (active cb i)"
| up: "observableMap s q = Some i \<Longrightarrow> parent i = VObj q' \<Longrightarrow> q < length (heap s) \<Longrightarrow>
       chain cb s q' L c \<Longrightarrow> chain cb s q (Suc L) (active cb i + c)"

text \<open>Calls that all report a change.\<close>

definition changes :: "(callback \<times> observation) list \<Rightarrow> bool" where
  "changes cs \<longleftrightarrow> list_all (\<lambda>c. etype (snd c) = Change) cs"

text \<open>
  What wrapping a tree does: the store changes at the objects of the tree only (and
  grows), the callback is called once for each member of the tree that holds an object,
  every call made reports a change, and the result is returned as it is when wrapped
  again.
\<close>

definition tree_wrapped ::
  "callback \<Rightarrow> bool \<Rightarrow> tree \<Rightarrow> state \<Rightarrow> val \<Rightarrow> state \<Rightarrow> bool" where
  "tree_wrapped cb st t s y s' \<longleftrightarrow>
     step_ok s s' \<and>
     (\<forall>b < length (heap s). b \<notin> addrs t \<longrightarrow> heap s' ! b = heap s ! b) \<and>
     (\<exists>cs. calls s' = calls s @ cs \<and> told cb cs = nslots t \<and> changes cs) \<and>
     settled st s' y"

text \<open>What holds at the start of every round of the loop over the members of a node at
  address \<open>a\<close> with proxy \<open>p\<close>, for the members still to be visited.\<close>

definition loop_inv ::
  "callback \<Rightarrow> bool \<Rightarrow> addr \<Rightarrow> addr \<Rightarrow> nat \<Rightarrow> nat \<Rightarrow> state \<Rightarrow> obj \<Rightarrow>
   (pkey \<times> tree) list \<Rightarrow> bool" where
  "loop_inv cb st p a L m s ob todo \<longleftrightarrow>
     facade s p = Some (a, st, ob) \<and> chain cb s p L 1 \<and>
     (\<forall>kt\<in>set todo. Reflect_get ob (fst kt) = root_of (snd kt) \<and> laid st s (snd kt) \<and>
        a \<notin> addrs (snd kt) \<and> need (snd kt) + L \<le> m) \<and>
     distinct (map fst todo) \<and>
     (\<forall>kt\<in>set todo. \<forall>kt'\<in>set todo. fst kt \<noteq> fst kt' \<longrightarrow>
        addrs (snd kt) \<inter> addrs (snd kt') = {})"

text \<open>What the induction on the tree proves of \<open>makeObservable\<close>.\<close>

definition wraps_tree :: "callback \<Rightarrow> bool \<Rightarrow> tree \<Rightarrow> bool" where
  "wraps_tree cb st t \<longleftrightarrow>
     (\<forall>n s nm q L. laid st s t \<longrightarrow> typeof (root_of t) = TObject \<longrightarrow> chain cb s q L 1 \<longrightarrow>
        need t + L \<le> n \<longrightarrow>
        (\<exists>y s'. makeObservable n (root_of t) nm (VObj q) st s = (Inr y, s') \<and>
                tree_wrapped cb st t s y s'))"

section \<open>Properties\<close>

subsection \<open>Bubbling\<close>

text \<open>
  C1, as stated, does not hold. With callback 1 on the root of \<open>{a: {b: {c: 1}}}\<close> and
  callback 2 on the middle observable, \<open>root.a.b.c = 2\<close> does not give callback 2 the path
  \<open>"c"\<close> and callback 1 the path \<open>"b.c"\<close>, whether the middle observable is the one at
  \<open>root.a\<close> or the one at \<open>root.a.b\<close>: the root is always told the full path \<open>"a.b.c"\<close>.
\<close>

theorem bubbling_paths_counterexample:
  "paths_received (snd bubbling) \<noteq> [(2, VStr ''c''), (1, VStr ''b.c'')] \<and>
   paths_received (snd bubbling_inner) \<noteq> [(2, VStr ''c''), (1, VStr ''b.c'')]"
  by code_simp

text \<open>
  C1, amended: there are exactly two calls, the inner one first. Callback 2, on the
  observable at \<open>root.a\<close>, is told a change with path \<open>"b.c"\<close>; callback 1, on the root,
  is told a change with path \<open>"a.b.c"\<close>; both with the old value 1 and the new value 2.
\<close>

theorem bubbling_paths:
  "fst bubbling = Inr (VObj 3, VObj 4) \<and>
   calls (snd bubbling) =
     [(2, \<lparr>etype = Change, target = VObj 4, path = VStr ''b.c'',
            valueNew = VNum 2, valueOld = VNum 1\<rparr>),
      (1, \<lparr>etype = Change, target = VObj 3, path = VStr ''a.b.c'',
            valueNew = VNum 2, valueOld = VNum 1\<rparr>)]"
  by code_simp

subsection \<open>Methods of the collections\<close>

text \<open>
  C4: \<open>delete(key)\<close> on an observable Map should report the value that the key had. On
  the Map \<open>{"g1" \<rightarrow> 7, "g2" \<rightarrow> 42}\<close>, \<open>delete("g1")\<close> removes the entry and makes one
  call, with the key as the path, but with \<open>valueOld\<close> undefined: the wrapper passes
  \<open>args[1]\<close>, which \<open>delete\<close> does not have.
\<close>

theorem map_delete_event:
  "fst (observed_call (MapO [(VStr ''g1'', VNum 7), (VStr ''g2'', VNum 42)])
          ''delete'' [VStr ''g1'']) = Inr (VBool True) \<and>
   calls (snd (observed_call (MapO [(VStr ''g1'', VNum 7), (VStr ''g2'', VNum 42)])
          ''delete'' [VStr ''g1''])) =
     [(1, \<lparr>etype = Change, target = VObj 1, path = VStr ''g1'',
            valueNew = VUndef, valueOld = VUndef\<rparr>)]"
  by code_simp

text \<open>
  C5: \<open>push\<close> should report the index of the new last element and \<open>pop\<close> the index of
  the element removed. On the array \<open>[7, 42]\<close>, \<open>push(5)\<close> reports the path \<open>"3"\<close>, the
  new length, where the element is at index 2; \<open>pop()\<close> reports the path \<open>"2"\<close>, the
  old length, where the element was at index 1.
\<close>

theorem push_pop_paths:
  "calls (snd (observed_call (Arr [VNum 7, VNum 42]) ''push'' [VNum 5])) =
     [(1, \<lparr>etype = Change, target = VObj 1, path = VStr ''3'',
            valueNew = VNum 5, valueOld = VUndef\<rparr>)] \<and>
   calls (snd (observed_call (Arr [VNum 7, VNum 42]) ''pop'' [])) =
     [(1, \<lparr>etype = Change, target = VObj 1, path = VStr ''2'',
            valueNew = VUndef, valueOld = VNum 42\<rparr>)]"
  by code_simp

text \<open>
  C8: \<open>fill(7, 1, 3)\<close> on an observable \<open>Uint8Array\<close> over \<open>[1, 2, 3]\<close> makes one call,
  with new typed arrays \<open>[2, 3]\<close> and \<open>[7, 7]\<close> as the old and the new value, and leaves
  \<open>[1, 7, 7]\<close>. The path of the observation is \<open>args[1]\<close> as it was passed, the number 1,
  not the string \<open>"1"\<close>.
\<close>

theorem fill_event:
  "calls (snd (observed_call (TypedArr Uint8 [1, 2, 3]) ''fill'' [VNum 7, VNum 1, VNum 3])) =
     [(1, \<lparr>etype = Change, target = VObj 1, path = VNum 1,
            valueNew = VObj 3, valueOld = VObj 2\<rparr>)] \<and>
   heap (snd (observed_call (TypedArr Uint8 [1, 2, 3]) ''fill'' [VNum 7, VNum 1, VNum 3])) =
     [TypedArr Uint8 [1, 7, 7], Proxy 0 True, TypedArr Uint8 [2, 3], TypedArr Uint8 [7, 7]]"
  by code_simp

subsection \<open>Arguments that are not objects\<close>

text \<open>
  C6: \<open>null\<close> is not an object, but \<open>typeof null\<close> is \<open>"object"\<close>, so the input checks let
  it pass: \<open>isObservable(null)\<close> returns \<open>false\<close>, and \<open>observable(null)\<close>, strict or not,
  ends in the \<open>TypeError\<close> of \<open>Object.getPrototypeOf(null)\<close>, not in the error of the
  input check.
\<close>

theorem null_input:
  "isObservable VNull s = (Inr False, s) \<and>
   observable (Suc n) VNull strict s = (Inl TypeError, s)"
  by (simp add: isObservable_def observable_def bind_def)

subsection \<open>The steps of makeObservable keep the store covered\<close>

lemma step_ok_refl [simp]: "step_ok s s"
  by (simp add: step_ok_def)

lemma step_ok_len: "step_ok s s' \<Longrightarrow> length (heap s) \<le> length (heap s')"
  by (simp add: step_ok_def)

lemma step_ok_map_old: "step_ok s s' \<Longrightarrow> a < length (heap s) \<Longrightarrow> observableMap s' a = observableMap s a"
  by (simp add: step_ok_def)

lemma step_ok_map_far: "step_ok s s' \<Longrightarrow> length (heap s') \<le> a \<Longrightarrow> observableMap s' a = observableMap s a"
  by (simp add: step_ok_def)

lemma step_ok_map_dom: "step_ok s s' \<Longrightarrow> observableMap s a = Some i \<Longrightarrow> \<exists>j. observableMap s' a = Some j"
  by (auto simp add: step_ok_def)

lemma step_ok_erase: "step_ok s s' \<Longrightarrow> a < length (heap s) \<Longrightarrow> erase (heap s' ! a) = erase (heap s ! a)"
  by (simp add: step_ok_def)

lemma step_ok_bad: "step_ok s s' \<Longrightarrow> bad s' a \<subseteq> bad s a"
  by (simp add: step_ok_def)

lemma step_ok_object:
  "step_ok s s' \<Longrightarrow> a < length (heap s) \<Longrightarrow> typeof (Reflect_get (heap s ! a) k) = TObject \<Longrightarrow>
   typeof (Reflect_get (heap s' ! a) k) = TObject"
  by (simp add: step_ok_def)

lemma step_ok_calls: "step_ok s s' \<Longrightarrow> \<exists>cs. calls s' = calls s @ cs"
  by (simp add: step_ok_def)

lemma step_ok_Other:
  "step_ok s s' \<Longrightarrow> a < length (heap s') \<Longrightarrow> heap s' ! a = Other \<Longrightarrow>
   a < length (heap s) \<and> heap s ! a = Other"
  by (simp add: step_ok_def)

lemma step_okI:
  assumes "length (heap s) \<le> length (heap s')"
    and "\<And>a. a < length (heap s) \<Longrightarrow> observableMap s' a = observableMap s a"
    and "\<And>a. length (heap s') \<le> a \<Longrightarrow> observableMap s' a = observableMap s a"
    and "\<And>a i. observableMap s a = Some i \<Longrightarrow> \<exists>j. observableMap s' a = Some j"
    and "\<And>a. a < length (heap s) \<Longrightarrow> erase (heap s' ! a) = erase (heap s ! a)"
    and "\<And>a. bad s' a \<subseteq> bad s a"
    and "\<And>a k. a < length (heap s) \<Longrightarrow> typeof (Reflect_get (heap s ! a) k) = TObject \<Longrightarrow>
           typeof (Reflect_get (heap s' ! a) k) = TObject"
    and "\<exists>cs. calls s' = calls s @ cs"
    and "\<And>a. a < length (heap s') \<Longrightarrow> heap s' ! a = Other \<Longrightarrow>
           a < length (heap s) \<and> heap s ! a = Other"
  shows "step_ok s s'"
  unfolding step_ok_def using assms by (intro conjI allI impI) auto

lemma step_ok_trans:
  assumes a: "step_ok s s1" and b: "step_ok s1 s2"
  shows "step_ok s s2"
proof (rule step_okI)
  show "length (heap s) \<le> length (heap s2)"
    using step_ok_len [OF a] step_ok_len [OF b] by simp
  show "observableMap s2 x = observableMap s x" if "x < length (heap s)" for x
    using that step_ok_map_old [OF a, of x] step_ok_map_old [OF b, of x] step_ok_len [OF a] by simp
  show "observableMap s2 x = observableMap s x" if "length (heap s2) \<le> x" for x
    using that step_ok_map_far [OF a, of x] step_ok_map_far [OF b, of x] step_ok_len [OF b] by simp
  show "\<exists>j. observableMap s2 x = Some j" if "observableMap s x = Some i" for x i
    using that step_ok_map_dom [OF a] step_ok_map_dom [OF b] by blast
  show "erase (heap s2 ! x) = erase (heap s ! x)" if "x < length (heap s)" for x
    using that step_ok_erase [OF a, of x] step_ok_erase [OF b, of x] step_ok_len [OF a] by simp
  show "bad s2 x \<subseteq> bad s x" for x
    using step_ok_bad [OF a, of x] step_ok_bad [OF b, of x] by blast
  show "typeof (Reflect_get (heap s2 ! x) k) = TObject"
    if "x < length (heap s)" and "typeof (Reflect_get (heap s ! x) k) = TObject" for x k
    using that step_ok_object [OF a, of x k] step_ok_object [OF b, of x k] step_ok_len [OF a]
    by simp
  show "\<exists>cs. calls s2 = calls s @ cs"
    using step_ok_calls [OF a] step_ok_calls [OF b] by auto
  show "x < length (heap s) \<and> heap s ! x = Other"
    if "x < length (heap s2)" and "heap s2 ! x = Other" for x
    using step_ok_Other [OF a, of x] step_ok_Other [OF b that] by simp
qed

lemma step_ok_has: "step_ok s s' \<Longrightarrow> map_has s v \<Longrightarrow> map_has s' v"
  by (cases v) (auto dest: step_ok_map_dom)

lemma is_passed_erase: "is_passed (erase ob) = is_passed ob"
  by (cases ob) simp_all

lemma step_ok_passed:
  assumes "step_ok s s'" and "passed_through s v"
  shows "passed_through s' v"
proof (cases v)
  case (VObj a)
  with assms(2) have l: "a < length (heap s)" and p: "is_passed (heap s ! a)" by simp_all
  from step_ok_erase [OF assms(1) l] p have "is_passed (heap s' ! a)"
    by (metis is_passed_erase)
  with l step_ok_len [OF assms(1)] VObj show ?thesis by simp
qed (use assms in simp_all)

lemma step_ok_unwrapped: "step_ok s s' \<Longrightarrow> unwrapped s' v \<Longrightarrow> unwrapped s v"
  unfolding unwrapped_def using step_ok_has step_ok_passed by blast

lemma bad_cong: "heap s' = heap s \<Longrightarrow> observableMap s' = observableMap s \<Longrightarrow> bad s' a = bad s a"
proof -
  assume h: "heap s' = heap s" and m: "observableMap s' = observableMap s"
  have u: "unwrapped s' v = unwrapped s v" for v
    by (cases v) (simp_all add: unwrapped_def h m)
  show ?thesis by (simp add: bad_def h u)
qed

lemma step_ok_same:
  assumes "heap s' = heap s" and "observableMap s' = observableMap s"
    and "\<exists>cs. calls s' = calls s @ cs"
  shows "step_ok s s'"
proof (rule step_okI)
  show "bad s' a \<subseteq> bad s a" for a
    using bad_cong [OF assms(1,2), of a] by simp
qed (simp_all add: assms)

lemma fresh_covered_same:
  "length (heap s') = length (heap s) \<Longrightarrow> fresh_covered s s'"
  by (simp add: fresh_covered_def)

lemma erase_Proxy: "erase ob = Proxy t st \<longleftrightarrow> ob = Proxy t st"
  by (cases ob) auto

lemma fresh_covered_trans:
  assumes 1: "fresh_covered s s1" and a: "step_ok s s1" and b: "step_ok s1 s2"
    and 2: "fresh_covered s1 s2"
  shows "fresh_covered s s2"
  unfolding fresh_covered_def
proof (intro allI impI)
  fix p t st
  assume l: "length (heap s) \<le> p" and u: "p < length (heap s2)" and h: "heap s2 ! p = Proxy t st"
  show "bad s2 t = {}"
  proof (cases "p < length (heap s1)")
    case False
    then have "length (heap s1) \<le> p" by simp
    with 2 u h show ?thesis unfolding fresh_covered_def by blast
  next
    case True
    from step_ok_erase [OF b True] h have "heap s1 ! p = Proxy t st"
      by (metis erase_Proxy)
    with 1 l True have "bad s1 t = {}" unfolding fresh_covered_def by blast
    with step_ok_bad [OF b, of t] show ?thesis by simp
  qed
qed

lemma call_all_frame [simp]:
  "heap (call_all i ob s) = heap s" "observableMap (call_all i ob s) = observableMap s"
  by (simp_all add: call_all_def)

lemma triggerObserver_frame:
  "heap (snd (triggerObserver n ty tgt pth vnew vold s)) = heap s \<and>
   observableMap (snd (triggerObserver n ty tgt pth vnew vold s)) = observableMap s"
proof (induction n arbitrary: tgt pth s)
  case 0
  show ?case by simp
next
  case (Suc n)
  show ?case
  proof (cases "map_get s tgt")
    case None
    then show ?thesis by simp
  next
    case (Some i)
    then show ?thesis using Suc by (simp add: Let_def)
  qed
qed

lemma triggerObserver_calls:
  "\<exists>cs. calls (snd (triggerObserver n ty tgt pth vnew vold s)) = calls s @ cs"
proof (induction n arbitrary: tgt pth s)
  case 0
  show ?case by simp
next
  case (Suc n)
  show ?case
  proof (cases "map_get s tgt")
    case None
    then show ?thesis by simp
  next
    case (Some i)
    let ?s1 = "call_all i \<lparr>etype = ty, target = tgt, path = pth, valueNew = vnew,
                            valueOld = vold\<rparr> s"
    have c1: "\<exists>cs. calls ?s1 = calls s @ cs" by (simp add: call_all_def)
    show ?thesis
    proof (cases "parent i = VNull")
      case True
      with Some c1 show ?thesis by (simp add: Let_def)
    next
      case False
      from Suc [of "parent i" "VStr (to_String (name i) @ ''.'' @ to_String pth)" ?s1]
      obtain cs where "calls (snd (triggerObserver n ty (parent i)
          (VStr (to_String (name i) @ ''.'' @ to_String pth)) vnew vold ?s1)) = calls ?s1 @ cs"
        by blast
      with c1 Some False show ?thesis by (auto simp: Let_def)
    qed
  qed
qed

lemma store_frame [simp]:
  "heap (store a ob s) = (heap s)[a := ob]" "observableMap (store a ob s) = observableMap s"
  "calls (store a ob s) = calls s"
  by (simp_all add: store_def)

lemma step_ok_store:
  assumes l: "tgt < length (heap s)"
    and e: "erase ob = erase (heap s ! tgt)"
    and sl: "\<And>kv. kv \<in> slots ob \<Longrightarrow> kv \<in> slots (heap s ! tgt) \<or> \<not> unwrapped s (snd kv)"
    and ty: "\<And>k. typeof (Reflect_get (heap s ! tgt) k) = TObject \<Longrightarrow>
               typeof (Reflect_get ob k) = TObject"
  shows "step_ok s (store tgt ob s)"
proof (rule step_okI)
  have has: "map_has (store tgt ob s) v = map_has s v" for v by (cases v) simp_all
  have "is_passed ((heap s)[tgt := ob] ! a) = is_passed (heap s ! a)" if "a < length (heap s)" for a
    using that e by (cases "a = tgt") (simp_all, metis is_passed_erase)
  then have pas: "passed_through (store tgt ob s) v = passed_through s v" for v
    by (cases v) auto
  have u: "unwrapped (store tgt ob s) v = unwrapped s v" for v
    by (simp add: unwrapped_def has pas)
  show "bad (store tgt ob s) a \<subseteq> bad s a" for a
  proof (cases "a = tgt")
    case True
    then show ?thesis using l sl by (auto simp: bad_def u)
  next
    case False
    then show ?thesis by (auto simp: bad_def u)
  qed
  show "erase (heap (store tgt ob s) ! a) = erase (heap s ! a)" if "a < length (heap s)" for a
    using that e by (cases "a = tgt") simp_all
  show "typeof (Reflect_get (heap (store tgt ob s) ! a) k) = TObject"
    if "a < length (heap s)" and "typeof (Reflect_get (heap s ! a) k) = TObject" for a k
    using that ty by (cases "a = tgt") simp_all
  show "a < length (heap s) \<and> heap s ! a = Other"
    if "a < length (heap (store tgt ob s))" and "heap (store tgt ob s) ! a = Other" for a
  proof (cases "a = tgt")
    case True
    with that l have "ob = Other" by simp
    with e have "erase (heap s ! tgt) = Other" by simp
    then have "heap s ! tgt = Other" by (cases "heap s ! tgt") simp_all
    with True l show ?thesis by simp
  next
    case False
    with that show ?thesis by simp
  qed
qed simp_all

lemma new_Proxy_eq:
  "new_Proxy a nm par strict s =
     (length (heap s),
      s\<lparr>heap := heap s @ [Proxy a strict],
        observableMap := (observableMap s)(length (heap s) \<mapsto>
          \<lparr>raw = VObj a, name = nm, parent = par, callbacks = [], paused = (\<lambda>cb. None)\<rparr>)\<rparr>)"
  by (simp add: new_Proxy_def alloc_def addInfo_def)

lemma step_ok_new_Proxy:
  assumes "new_Proxy a nm par strict s = (p, s1)"
  shows "step_ok s s1"
proof -
  from assms have s1: "s1 = s\<lparr>heap := heap s @ [Proxy a strict],
        observableMap := (observableMap s)(length (heap s) \<mapsto>
          \<lparr>raw = VObj a, name = nm, parent = par, callbacks = [], paused = (\<lambda>cb. None)\<rparr>)\<rparr>"
    by (auto simp add: new_Proxy_eq)
  show ?thesis
  proof (rule step_okI)
    have has: "map_has s v \<Longrightarrow> map_has s1 v" for v by (cases v) (simp_all add: s1)
    have pas: "passed_through s v \<Longrightarrow> passed_through s1 v" for v
      by (cases v) (auto simp add: s1 nth_append)
    have u: "unwrapped s1 v \<Longrightarrow> unwrapped s v" for v
      using has pas by (auto simp: unwrapped_def)
    show "bad s1 x \<subseteq> bad s x" for x
    proof (cases "x < length (heap s)")
      case True
      then show ?thesis using u by (auto simp: bad_def s1 nth_append)
    next
      case False
      then show ?thesis by (auto simp: bad_def s1 nth_append)
    qed
    show "x < length (heap s) \<and> heap s ! x = Other"
      if "x < length (heap s1)" and "heap s1 ! x = Other" for x
      using that by (cases "x < length (heap s)") (auto simp: s1 nth_append)
  qed (simp_all add: s1 nth_append)
qed

lemma wrapsD:
  assumes "wraps mk" and "mk ob nm par strict s = (r, s')"
  shows "step_ok s s'" and "r = Inr v \<Longrightarrow> \<not> unwrapped s' v" and "r = Inr v \<Longrightarrow> fresh_covered s s'"
    and "r = Inr v \<Longrightarrow> typeof v = TObject"
  using assms unfolding wraps_def by blast+

lemma bindE:
  assumes "bind m f s = (r, s')"
  obtains (err) e where "m s = (Inl e, s')" and "r = Inl e"
        | (ok) x s1 where "m s = (Inr x, s1)" and "f x s1 = (r, s')"
  using assms by (auto simp: bind_def split: prod.splits sum.splits)

lemma map_of_put: "map_of (put fs k v) = (map_of fs)(k \<mapsto> v)"
  by (induction fs) (auto simp: fun_eq_iff)

lemma erase_Reflect_set [simp]: "erase (Reflect_set ob k v) = erase ob"
  by (cases ob; cases k) simp_all

lemma slots_Reflect_set_key: "(PK k, v') \<in> slots (Reflect_set ob k v) \<Longrightarrow> v' = v"
  by (cases ob; cases k) (auto simp: map_of_put nth_append split: if_splits)

lemma nth_gap: 
  "j < length (xs @ replicate m VUndef @ [v]) \<Longrightarrow>
   (xs @ replicate m VUndef @ [v]) ! j = (if j < length xs then xs ! j else if j < length xs + m then VUndef else v)"
  by (auto simp: nth_append nth_Cons split: nat.splits)

lemma slots_Arr_iff: "kv \<in> slots (Arr ys) \<longleftrightarrow> (\<exists>j<length ys. kv = (PK (Index j), ys ! j))"
  by auto

lemma slots_Reflect_set:
  assumes "kv \<in> slots (Reflect_set ob k v)"
  shows "kv \<in> slots ob \<or> kv = (PK k, v) \<or> snd kv = VUndef"
proof (cases ob)
  case (Plain fs)
  from assms obtain k' v' where kv: "kv = (PK k', v')" and m: "map_of (put fs k v) k' = Some v'"
    unfolding Plain by auto
  show ?thesis
  proof (cases "k' = k")
    case True
    with m have "v' = v" by (simp add: map_of_put)
    with kv True show ?thesis by simp
  next
    case False
    with m have "map_of fs k' = Some v'" by (simp add: map_of_put)
    with kv Plain show ?thesis by simp
  qed
next
  case (Arr xs)
  show ?thesis
  proof (cases k)
    case (Name n)
    with Arr assms show ?thesis by simp
  next
    case (Index i)
    show ?thesis
    proof (cases "i < length xs")
      case True
      with assms obtain j where j: "j < length xs" and kv: "kv = (PK (Index j), xs[i := v] ! j)"
        unfolding Arr Index by (auto simp: slots_Arr_iff simp del: slots.simps)
      show ?thesis
      proof (cases "j = i")
        case True
        with kv j Index show ?thesis by simp
      next
        case False
        with kv j have "kv = (PK (Index j), xs ! j)" by simp
        with j Arr show ?thesis by (auto simp: slots_Arr_iff simp del: slots.simps)
      qed
    next
      case False
      define ys where "ys = xs @ replicate (i - length xs) VUndef @ [v]"
      from False assms have "kv \<in> slots (Arr ys)"
        unfolding Arr Index ys_def by simp
      then obtain j where j: "j < length ys" and kv: "kv = (PK (Index j), ys ! j)"
        unfolding slots_Arr_iff by blast
      from j have ji: "j \<le> i" using False by (simp add: ys_def)
      have g: "ys ! j = (if j < length xs then xs ! j
                         else if j < length xs + (i - length xs) then VUndef else v)"
        using nth_gap [of j xs "i - length xs" v] j by (simp add: ys_def)
      show ?thesis
      proof (cases "j < length xs")
        case True
        with g kv have "kv = (PK (Index j), xs ! j)" by simp
        with True Arr show ?thesis by (auto simp: slots_Arr_iff simp del: slots.simps)
      next
        case f: False
        show ?thesis
        proof (cases "j < i")
          case True
          with f g have "ys ! j = VUndef" by simp
          with kv show ?thesis by simp
        next
          case False
          with ji have "j = i" by simp
          with f g False have "ys ! j = v" by simp
          with kv \<open>j = i\<close> Index show ?thesis by simp
        qed
      qed
    qed
  qed
next
  case (SetO xs)
  with assms show ?thesis by simp
next
  case (WeakSetO xs)
  with assms show ?thesis by simp
next
  case (MapO kvs)
  with assms show ?thesis by simp
next
  case (WeakMapO kvs)
  with assms show ?thesis by simp
next
  case (TypedArr tk xs)
  with assms show ?thesis by (cases k) (simp_all split: if_splits)
next
  case (Opaque x)
  with assms show ?thesis by simp
next
  case Other
  with assms show ?thesis by simp
next
  case (Proxy t st)
  with assms show ?thesis by simp
qed

lemma unwrapped_VUndef [simp]: "\<not> unwrapped s VUndef"
  by (simp add: unwrapped_def)

lemma value_ok:
  assumes w: "wraps mk"
    and r: "(if typeof x = TObject
             then bind (isObservable x) (\<lambda>b. if \<not> b then mk x nm par strict else ret x)
             else ret x) s = (r1, s1)"
  shows "step_ok s s1" and "r1 = Inr v \<Longrightarrow> \<not> unwrapped s1 v" and "r1 = Inr v \<Longrightarrow> fresh_covered s s1"
    and "r1 = Inr v \<Longrightarrow> typeof x = TObject \<Longrightarrow> typeof v = TObject"
proof -
  have "step_ok s s1 \<and> (r1 = Inr v \<longrightarrow> \<not> unwrapped s1 v \<and> fresh_covered s s1 \<and>
          (typeof x = TObject \<longrightarrow> typeof v = TObject))"
  proof (cases "typeof x = TObject")
    case False
    with r have "r1 = Inr x" "s1 = s" by (simp_all add: ret_def)
    with False show ?thesis by (auto simp add: unwrapped_def fresh_covered_same)
  next
    case True
    show ?thesis
    proof (cases "map_has s x")
      case h: True
      with True r have "r1 = Inr x" "s1 = s" by (simp_all add: ret_def bind_def isObservable_def)
      with h show ?thesis by (auto simp add: unwrapped_def fresh_covered_same)
    next
      case False
      with True r have "mk x nm par strict s = (r1, s1)"
        by (simp add: bind_def isObservable_def)
      from wrapsD [OF w this] show ?thesis by blast
    qed
  qed
  then show "step_ok s s1" and "r1 = Inr v \<Longrightarrow> \<not> unwrapped s1 v" and "r1 = Inr v \<Longrightarrow> fresh_covered s s1"
    and "r1 = Inr v \<Longrightarrow> typeof x = TObject \<Longrightarrow> typeof v = TObject"
    by blast+
qed

lemma trigger_eq_frame:
  assumes "triggerObserver n ty tgt pth vnew vold s = (r, s')"
  shows "heap s' = heap s" and "observableMap s' = observableMap s"
  using triggerObserver_frame [of n ty tgt pth vnew vold s] assms by simp_all

lemma step_ok_trigger:
  "triggerObserver n ty tgt pth vnew vold s = (r, s') \<Longrightarrow> step_ok s s'"
  using triggerObserver_frame [of n ty tgt pth vnew vold s]
    triggerObserver_calls [of n ty tgt pth vnew vold s]
  by (intro step_ok_same) simp_all

lemma trigger_bad:
  "triggerObserver n ty tgt pth vnew vold s = (r, s') \<Longrightarrow> bad s' a = bad s a"
  using triggerObserver_frame [of n ty tgt pth vnew vold s] bad_cong [of s' s a] by simp

lemma trigger_map:
  "triggerObserver n ty tgt pth vnew vold s = (r, s') \<Longrightarrow> observableMap s' = observableMap s"
  using triggerObserver_frame [of n ty tgt pth vnew vold s] by simp

lemma facade_SomeD:
  "facade s p = Some (tgt, st, ob) \<Longrightarrow>
     p < length (heap s) \<and> heap s ! p = Proxy tgt st \<and> tgt < length (heap s) \<and> heap s ! tgt = ob"
  by (auto simp: facade_def obj_at_def split: if_splits obj.splits)

lemma step_ok_facade:
  assumes "step_ok s s'" and "facade s p = Some (tgt, st, ob)"
  shows "\<exists>ob'. facade s' p = Some (tgt, st, ob') \<and> erase ob' = erase ob"
proof -
  from facade_SomeD [OF assms(2)] have p: "p < length (heap s)" "heap s ! p = Proxy tgt st"
    and t: "tgt < length (heap s)" "heap s ! tgt = ob" by simp_all
  from step_ok_erase [OF assms(1) p(1)] p(2) have "heap s' ! p = Proxy tgt st"
    by (metis erase_Proxy)
  moreover from step_ok_erase [OF assms(1) t(1)] t(2) have "erase (heap s' ! tgt) = erase ob" by simp
  ultimately show ?thesis using p t step_ok_len [OF assms(1)]
    by (simp add: facade_def obj_at_def)
qed

lemma Reflect_set_object:
  assumes "typeof y = TObject" and "typeof (Reflect_get ob k') = TObject"
  shows "typeof (Reflect_get (Reflect_set ob k y) k') = TObject"
proof (cases ob)
  case (Plain fs)
  with assms show ?thesis by (simp add: map_of_put)
next
  case (Arr xs)
  show ?thesis
  proof (cases k)
    case (Name n)
    with Arr assms show ?thesis by simp
  next
    case (Index i)
    show ?thesis
    proof (cases k')
      case n: (Name n)
      with Arr assms show ?thesis by (simp split: if_splits)
    next
      case j: (Index j)
      with Arr assms have jl: "j < length xs" by (simp split: if_splits)
      with Arr Index j assms show ?thesis
        by (cases "j = i") (simp_all add: nth_append)
    qed
  qed
next
  case (TypedArr tk xs)
  with assms show ?thesis by (cases k') (simp_all split: if_splits)
qed (use assms in simp_all)

lemma set_trap_ok:
  assumes w: "wraps mk" and r: "set_trap mk n p k x s = (r, s')" and tx: "typeof x = TObject"
  shows "step_ok s s'"
    and "r = Inr b \<Longrightarrow> fresh_covered s s'"
    and "r = Inr b \<Longrightarrow> facade s p = Some (tgt, st, ob) \<Longrightarrow> (PK k, v) \<notin> bad s' tgt"
proof -
  have "step_ok s s' \<and> (r = Inr b \<longrightarrow> fresh_covered s s' \<and>
          (facade s p = Some (tgt, st, ob) \<longrightarrow> (PK k, v) \<notin> bad s' tgt))"
  proof (cases "facade s p")
    case None
    with r show ?thesis by (auto simp add: set_trap_def)
  next
    case (Some f)
    obtain t strict ob0 where f: "f = (t, strict, ob0)" by (cases f) auto
    let ?M = "if typeof x = TObject
              then bind (isObservable x)
                     (\<lambda>b. if \<not> b then mk x (VStr (key_String k)) (VObj p) strict else ret x)
              else ret x"
    let ?F = "\<lambda>v s1. case obj_at s1 t of
                 None \<Rightarrow> (Inl OutsideModel, s1)
               | Some ob1 \<Rightarrow>
                   bind (triggerObserver n Change (VObj p) (VStr (key_String k)) v
                           (Reflect_get ob0 k))
                     (\<lambda>u. ret True) (store t (Reflect_set ob1 k v) s1)"
    from r Some f have b: "bind ?M ?F s = (r, s')"
      by (simp add: set_trap_def Let_def)
    from b show ?thesis
    proof (cases rule: bindE)
      case (err e)
      with value_ok(1) [OF w err(1)] show ?thesis by simp
    next
      case (ok y s1)
      note v = value_ok [OF w ok(1)]
      have u: "\<not> unwrapped s1 y" using v(2) by simp
      have ty: "typeof y = TObject" using v(4) tx by simp
      have f0: "facade s p = Some (t, strict, ob0)" using Some f by simp
      from step_ok_facade [OF v(1) f0] obtain ob1
        where f1: "facade s1 p = Some (t, strict, ob1)" by blast
      from facade_SomeD [OF f1] have t: "t < length (heap s1)" and o1: "heap s1 ! t = ob1"
        by simp_all
      let ?s2 = "store t (Reflect_set ob1 k y) s1"
      have s12: "step_ok s1 ?s2"
      proof (rule step_ok_store [OF t])
        show "erase (Reflect_set ob1 k y) = erase (heap s1 ! t)" by (simp add: o1)
        show "kv \<in> slots (heap s1 ! t) \<or> \<not> unwrapped s1 (snd kv)"
          if "kv \<in> slots (Reflect_set ob1 k y)" for kv
          using slots_Reflect_set [OF that] u o1 by auto
        show "typeof (Reflect_get (Reflect_set ob1 k y) k') = TObject"
          if "typeof (Reflect_get (heap s1 ! t) k') = TObject" for k'
          using Reflect_set_object [OF ty] that o1 by simp
      qed
      from ok(2) t o1 have b2: "bind (triggerObserver n Change (VObj p) (VStr (key_String k)) y
                           (Reflect_get ob0 k)) (\<lambda>u. ret True) ?s2 = (r, s')"
        by (simp add: obj_at_def)
      obtain r3 where tr: "triggerObserver n Change (VObj p) (VStr (key_String k)) y
                           (Reflect_get ob0 k) ?s2 = (r3, s')"
        using b2 by (cases rule: bindE) (auto simp: ret_def)
      have s23: "step_ok ?s2 s'" by (rule step_ok_trigger [OF tr])
      have s1': "step_ok s1 s'" by (rule step_ok_trans [OF s12 s23])
      have m: "length (heap s') = length (heap s1)"
        using trigger_eq_frame(1) [OF tr] by simp
      have fc: "fresh_covered s s'" if "r = Inr b"
      proof -
        from that b2 have "\<exists>z. Inr y = (Inr z :: error + val)" by simp
        have "fresh_covered s s1" using v(3) by simp
        then show ?thesis
          by (rule fresh_covered_trans [OF _ v(1) s1' fresh_covered_same [OF m]])
      qed
      have sl: "(PK k, v) \<notin> bad s' t"
      proof
        assume "(PK k, v) \<in> bad s' t"
        then have "(PK k, v) \<in> bad ?s2 t" using trigger_bad [OF tr, of t] by simp
        then have "(PK k, v) \<in> slots (Reflect_set ob1 k y)" and uw: "unwrapped ?s2 v"
          using t by (simp_all add: bad_def)
        from slots_Reflect_set_key [OF this(1)] have "v = y" .
        with uw step_ok_unwrapped [OF s12] u show False by blast
      qed
      show ?thesis using step_ok_trans [OF v(1) s1'] fc sl Some f by auto
    qed
  qed
  then show "step_ok s s'"
    and "r = Inr b \<Longrightarrow> fresh_covered s s'"
    and "r = Inr b \<Longrightarrow> facade s p = Some (tgt, st, ob) \<Longrightarrow> (PK k, v) \<notin> bad s' tgt"
    by blast+
qed

lemma Set_method_slots:
  assumes "Set_method m this ob args = Inr (ob1, res)"
  shows "erase ob1 = erase ob"
    and "kv \<in> slots ob1 \<Longrightarrow> kv \<in> slots ob \<or> (m = ''add'' \<and> snd kv = arg args 0)"
    and "m = ''delete'' \<Longrightarrow> (VK (arg args 0), v) \<notin> slots ob1"
proof -
  have "erase ob1 = erase ob \<and>
        (kv \<in> slots ob1 \<longrightarrow> kv \<in> slots ob \<or> (m = ''add'' \<and> snd kv = arg args 0)) \<and>
        (m = ''delete'' \<longrightarrow> (VK (arg args 0), v) \<notin> slots ob1)"
  proof (cases ob)
    case (SetO xs)
    with assms show ?thesis
      by (auto simp: Set_method_def split: if_splits)
  next
    case (WeakSetO xs)
    with assms show ?thesis
      by (auto simp: Set_method_def split: if_splits val.splits)
  qed (use assms in \<open>simp_all add: Set_method_def\<close>)
  then show "erase ob1 = erase ob"
    and "kv \<in> slots ob1 \<Longrightarrow> kv \<in> slots ob \<or> (m = ''add'' \<and> snd kv = arg args 0)"
    and "m = ''delete'' \<Longrightarrow> (VK (arg args 0), v) \<notin> slots ob1"
    by blast+
qed

lemma Set_method_get:
  "Set_method m this ob args = Inr q \<Longrightarrow> Reflect_get ob k = VUndef"
  by (cases ob) (simp_all add: Set_method_def)

lemma Map_method_get:
  "Map_method m this ob args = Inr q \<Longrightarrow> Reflect_get ob k = VUndef"
  by (cases ob) (simp_all add: Map_method_def)

lemma Set_wrapper_ok:
  assumes r: "Set_wrapper n p m args s = (r, s')"
    and a: "m = ''add'' \<Longrightarrow> \<not> unwrapped s (arg args 0)"
  shows "step_ok s s'"
    and "length (heap s') = length (heap s)"
    and "r = Inr x \<Longrightarrow> m = ''delete'' \<Longrightarrow> facade s p = Some (tgt, st, ob) \<Longrightarrow>
           (VK (arg args 0), v) \<notin> bad s' tgt"
proof -
  have "step_ok s s' \<and> length (heap s') = length (heap s) \<and>
        (r = Inr x \<longrightarrow> m = ''delete'' \<longrightarrow> facade s p = Some (tgt, st, ob) \<longrightarrow>
           (VK (arg args 0), v) \<notin> bad s' tgt)"
  proof (cases "facade s p")
    case None
    with r show ?thesis by (auto simp add: Set_wrapper_def)
  next
    case (Some f)
    obtain t strict ob0 where f: "f = (t, strict, ob0)" by (cases f) auto
    from facade_SomeD [of s p t strict ob0] Some f
    have t: "t < length (heap s)" and o0: "heap s ! t = ob0" by simp_all
    show ?thesis
    proof (cases "Set_method m t ob0 args")
      case (Inl e)
      with r Some f show ?thesis by (auto simp add: Set_wrapper_def)
    next
      case (Inr q)
      obtain ob1 res where q: "q = (ob1, res)" by (cases q) auto
      note sm = Set_method_slots [OF Inr [unfolded q]]
      let ?s1 = "store t ob1 s"
      let ?T = "if m = ''add''
                then triggerObserver n Change (VObj p) (VStr ''*'') (arg args 0) VUndef
                else if m = ''delete''
                then triggerObserver n Change (VObj p) (VStr ''*'') VUndef (arg args 0)
                else if m = ''clear''
                then triggerObserver n Change (VObj p) (VStr ''*'') VUndef VUndef
                else ret ()"
      have s1: "step_ok s ?s1"
      proof (rule step_ok_store [OF t])
        show "erase ob1 = erase (heap s ! t)" using sm(1) o0 by simp
        show "kv \<in> slots (heap s ! t) \<or> \<not> unwrapped s (snd kv)" if "kv \<in> slots ob1" for kv
          using sm(2) [OF that] a o0 by auto
        show "typeof (Reflect_get ob1 k) = TObject"
          if "typeof (Reflect_get (heap s ! t) k) = TObject" for k
          using that o0 Inr by (simp add: Set_method_get Map_method_get)
      qed
      from r Some f Inr q have b: "bind ?T (\<lambda>u. ret res) ?s1 = (r, s')"
        by (simp add: Set_wrapper_def)
      then obtain r3 where tr: "?T ?s1 = (r3, s')"
        by (cases rule: bindE) (auto simp: ret_def)
      have fr: "heap s' = heap ?s1 \<and> observableMap s' = observableMap ?s1"
        using tr by (auto simp: ret_def split: if_splits dest: trigger_eq_frame)
      have s2: "step_ok ?s1 s'"
        using tr by (auto simp: ret_def split: if_splits intro: step_ok_trigger)
      have bd: "bad s' t = bad ?s1 t" using fr bad_cong [of s' ?s1 t] by simp
      have "(VK (arg args 0), v) \<notin> bad s' t" if "m = ''delete''"
      proof -
        have "(VK (arg args 0), v) \<notin> bad ?s1 t"
          using sm(3) [OF that, of v] t by (simp add: bad_def)
        then show ?thesis using bd by simp
      qed
      then show ?thesis using step_ok_trans [OF s1 s2] fr Some f by auto
    qed
  qed
  then show "step_ok s s'"
    and "length (heap s') = length (heap s)"
    and "r = Inr x \<Longrightarrow> m = ''delete'' \<Longrightarrow> facade s p = Some (tgt, st, ob) \<Longrightarrow>
           (VK (arg args 0), v) \<notin> bad s' tgt"
    by blast+
qed

lemma map_of_filter_fst:
  "map_of (filter (\<lambda>e. fst e \<noteq> k) kvs) k' = (if k' = k then None else map_of kvs k')"
  by (induction kvs) auto

lemma Map_method_slots:
  assumes "Map_method m this ob args = Inr (ob1, res)"
  shows "erase ob1 = erase ob"
    and "kv \<in> slots ob1 \<Longrightarrow> kv \<in> slots ob \<or> (m = ''set'' \<and> snd kv = arg args 1)"
    and "m = ''delete'' \<Longrightarrow> (VK (arg args 0), v) \<notin> slots ob1"
proof -
  have "erase ob1 = erase ob \<and>
        (kv \<in> slots ob1 \<longrightarrow> kv \<in> slots ob \<or> (m = ''set'' \<and> snd kv = arg args 1)) \<and>
        (m = ''delete'' \<longrightarrow> (VK (arg args 0), v) \<notin> slots ob1)"
  proof (cases ob)
    case (MapO kvs)
    with assms show ?thesis
      by (auto simp: Map_method_def map_of_put map_of_filter_fst split: if_splits)
  next
    case (WeakMapO kvs)
    with assms show ?thesis
      by (auto simp: Map_method_def split: if_splits val.splits)
  qed (use assms in \<open>simp_all add: Map_method_def\<close>)
  then show "erase ob1 = erase ob"
    and "kv \<in> slots ob1 \<Longrightarrow> kv \<in> slots ob \<or> (m = ''set'' \<and> snd kv = arg args 1)"
    and "m = ''delete'' \<Longrightarrow> (VK (arg args 0), v) \<notin> slots ob1"
    by blast+
qed

lemma Map_wrapper_ok:
  assumes r: "Map_wrapper n p m args s = (r, s')"
    and a: "m = ''set'' \<Longrightarrow> \<not> unwrapped s (arg args 1)"
  shows "step_ok s s'"
    and "length (heap s') = length (heap s)"
    and "r = Inr x \<Longrightarrow> m = ''delete'' \<Longrightarrow> facade s p = Some (tgt, st, ob) \<Longrightarrow>
           (VK (arg args 0), v) \<notin> bad s' tgt"
proof -
  have "step_ok s s' \<and> length (heap s') = length (heap s) \<and>
        (r = Inr x \<longrightarrow> m = ''delete'' \<longrightarrow> facade s p = Some (tgt, st, ob) \<longrightarrow>
           (VK (arg args 0), v) \<notin> bad s' tgt)"
  proof (cases "facade s p")
    case None
    with r show ?thesis by (auto simp add: Map_wrapper_def)
  next
    case (Some f)
    obtain t strict ob0 where f: "f = (t, strict, ob0)" by (cases f) auto
    from facade_SomeD [of s p t strict ob0] Some f
    have t: "t < length (heap s)" and o0: "heap s ! t = ob0" by simp_all
    show ?thesis
    proof (cases "Map_method m t ob0 args")
      case (Inl e)
      with r Some f show ?thesis by (auto simp add: Map_wrapper_def Let_def)
    next
      case (Inr q)
      obtain ob1 res where q: "q = (ob1, res)" by (cases q) auto
      note sm = Map_method_slots [OF Inr [unfolded q]]
      let ?s1 = "store t ob1 s"
      let ?vold = "if m = ''set'' then Map_get ob0 (arg args 0) else VUndef"
      let ?T = "if m = ''set''
                then triggerObserver n Change (VObj p) (arg args 0) (arg args 1) ?vold
                else if m = ''delete''
                then triggerObserver n Change (VObj p) (arg args 0) VUndef (arg args 1)
                else if m = ''clear''
                then triggerObserver n Change (VObj p) (VStr ''*'') VUndef VUndef
                else ret ()"
      have s1: "step_ok s ?s1"
      proof (rule step_ok_store [OF t])
        show "erase ob1 = erase (heap s ! t)" using sm(1) o0 by simp
        show "kv \<in> slots (heap s ! t) \<or> \<not> unwrapped s (snd kv)" if "kv \<in> slots ob1" for kv
          using sm(2) [OF that] a o0 by auto
        show "typeof (Reflect_get ob1 k) = TObject"
          if "typeof (Reflect_get (heap s ! t) k) = TObject" for k
          using that o0 Inr by (simp add: Set_method_get Map_method_get)
      qed
      from r Some f Inr q have b: "bind ?T (\<lambda>u. ret res) ?s1 = (r, s')"
        by (simp add: Map_wrapper_def Let_def)
      then obtain r3 where tr: "?T ?s1 = (r3, s')"
        by (cases rule: bindE) (auto simp: ret_def)
      have fr: "heap s' = heap ?s1 \<and> observableMap s' = observableMap ?s1"
        using tr by (auto simp: ret_def split: if_splits dest: trigger_eq_frame)
      have s2: "step_ok ?s1 s'"
        using tr by (auto simp: ret_def split: if_splits intro: step_ok_trigger)
      have bd: "bad s' t = bad ?s1 t" using fr bad_cong [of s' ?s1 t] by simp
      have "(VK (arg args 0), v) \<notin> bad s' t" if "m = ''delete''"
      proof -
        have "(VK (arg args 0), v) \<notin> bad ?s1 t"
          using sm(3) [OF that, of v] t by (simp add: bad_def)
        then show ?thesis using bd by simp
      qed
      then show ?thesis using step_ok_trans [OF s1 s2] fr Some f by auto
    qed
  qed
  then show "step_ok s s'"
    and "length (heap s') = length (heap s)"
    and "r = Inr x \<Longrightarrow> m = ''delete'' \<Longrightarrow> facade s p = Some (tgt, st, ob) \<Longrightarrow>
           (VK (arg args 0), v) \<notin> bad s' tgt"
    by blast+
qed

lemma slots_Reflect_get: "(PK k, v) \<in> slots ob \<Longrightarrow> Reflect_get ob k = v"
  by (cases ob; cases k) auto

lemma wrap_member_ok:
  assumes w: "wraps mk" and r: "wrap_member mk n p strict k s = (r, s')"
  shows "step_ok s s'"
    and "r = Inr u \<Longrightarrow> fresh_covered s s'"
    and "r = Inr u \<Longrightarrow> facade s p = Some (tgt, st, ob) \<Longrightarrow> (PK k, v) \<notin> bad s' tgt"
proof -
  have "step_ok s s' \<and> (r = Inr u \<longrightarrow> fresh_covered s s' \<and>
          (facade s p = Some (tgt, st, ob) \<longrightarrow> (PK k, v) \<notin> bad s' tgt))"
  proof (cases "typeof (get_trap s p k) = TObject")
    case False
    with r have e: "s' = s" "r = Inr ()" by (simp_all add: wrap_member_def)
    have "(PK k, v) \<notin> bad s tgt" if f: "facade s p = Some (tgt, st, ob)"
    proof
      assume "(PK k, v) \<in> bad s tgt"
      with facade_SomeD [OF f] have "(PK k, v) \<in> slots ob" and "unwrapped s v"
        by (simp_all add: bad_def)
      then have "Reflect_get ob k = v" and "typeof v = TObject"
        by (simp_all add: slots_Reflect_get unwrapped_def)
      with False f show False by (simp add: get_trap_def)
    qed
    with e show ?thesis by (simp add: fresh_covered_same)
  next
    case True
    with r have b: "bind (mk (get_trap s p k) (VStr (key_String k)) (VObj p) strict)
             (\<lambda>w. bind (set_trap mk n p k w) (\<lambda>b. ret ())) s = (r, s')"
      by (simp add: wrap_member_def)
    from b show ?thesis
    proof (cases rule: bindE)
      case (err e)
      with wrapsD(1) [OF w err(1)] show ?thesis by simp
    next
      case (ok y s1)
      note m = wrapsD [OF w ok(1)]
      from ok(2) obtain r2 where st: "set_trap mk n p k y s1 = (r2, s')"
        and r2: "r = Inr u \<Longrightarrow> \<exists>b. r2 = Inr b"
        by (cases rule: bindE) (auto simp: ret_def)
      note t = set_trap_ok [OF w st m(4) [OF refl]]
      have fc: "fresh_covered s s'" if "r = Inr u"
      proof -
        from r2 [OF that] obtain b where "r2 = Inr b" by blast
        from t(2) [OF this] m(3) m(1) t(1) show ?thesis
          using fresh_covered_trans by blast
      qed
      have sl: "(PK k, v) \<notin> bad s' tgt" if "r = Inr u" and f: "facade s p = Some (tgt, st, ob)"
      proof -
        from r2 [OF that(1)] obtain b where b: "r2 = Inr b" by blast
        from step_ok_facade [OF m(1) f] obtain ob' where "facade s1 p = Some (tgt, st, ob')"
          by blast
        from t(3) [OF b this] show ?thesis .
      qed
      show ?thesis using step_ok_trans [OF m(1) t(1)] fc sl by blast
    qed
  qed
  then show "step_ok s s'"
    and "r = Inr u \<Longrightarrow> fresh_covered s s'"
    and "r = Inr u \<Longrightarrow> facade s p = Some (tgt, st, ob) \<Longrightarrow> (PK k, v) \<notin> bad s' tgt"
    by blast+
qed

lemma arg_simps [simp]: "arg [x] 0 = x" "arg [x, y] 0 = x" "arg [x, y] (Suc 0) = y"
  by (simp_all add: arg_def)

lemma wrap_item_ok:
  assumes w: "wraps mk" and r: "wrap_item mk n p strict item s = (r, s')"
  shows "step_ok s s'"
    and "r = Inr u \<Longrightarrow> fresh_covered s s'"
    and "r = Inr u \<Longrightarrow> typeof item = TObject \<Longrightarrow> facade s p = Some (tgt, st, ob) \<Longrightarrow>
           (VK item, v) \<notin> bad s' tgt"
proof -
  have "step_ok s s' \<and> (r = Inr u \<longrightarrow> fresh_covered s s' \<and>
          (typeof item = TObject \<longrightarrow> facade s p = Some (tgt, st, ob) \<longrightarrow>
             (VK item, v) \<notin> bad s' tgt))"
  proof (cases "typeof item = TObject")
    case False
    with r show ?thesis by (simp add: wrap_item_def fresh_covered_same)
  next
    case True
    with r have b: "bind (Set_wrapper n p ''delete'' [item])
             (\<lambda>d. bind (mk item (VStr []) (VObj p) strict)
                (\<lambda>w. bind (Set_wrapper n p ''add'' [w]) (\<lambda>r. ret ()))) s = (r, s')"
      by (simp add: wrap_item_def)
    from b show ?thesis
    proof (cases rule: bindE)
      case (err e)
      with Set_wrapper_ok(1) [OF err(1)] show ?thesis by simp
    next
      case (ok d s1)
      note d = Set_wrapper_ok [OF ok(1)]
      have d1: "step_ok s s1" using d(1) by simp
      have dm: "length (heap s1) = length (heap s)" using d(2) by simp
      from ok(2) show ?thesis
      proof (cases rule: bindE)
        case (err e)
        with step_ok_trans [OF d1 wrapsD(1) [OF w err(1)]] show ?thesis by simp
      next
        case ok2: (ok y s2)
        note m = wrapsD [OF w ok2(1)]
        have y: "\<not> unwrapped s2 y" using m(2) by simp
        from ok2(2) obtain r3 where st: "Set_wrapper n p ''add'' [y] s2 = (r3, s')"
          by (cases rule: bindE) (auto simp: ret_def)
        have a: "step_ok s2 s'" and am: "length (heap s') = length (heap s2)"
          using Set_wrapper_ok(1,2) [OF st] y by simp_all
        have s1': "step_ok s1 s'" by (rule step_ok_trans [OF m(1) a])
        have fc: "fresh_covered s s'"
        proof -
          have "fresh_covered s1 s2" using m(3) by simp
          then have "fresh_covered s1 s'"
            by (rule fresh_covered_trans [OF _ m(1) a fresh_covered_same [OF am]])
          then show ?thesis
            by (rule fresh_covered_trans [OF fresh_covered_same [OF dm] d1 s1'])
        qed
        have sl: "(VK item, v) \<notin> bad s' tgt" if f: "facade s p = Some (tgt, st, ob)"
        proof -
          have "(VK item, v) \<notin> bad s1 tgt" using d(3) [of d tgt st ob v] f by simp
          then show ?thesis using step_ok_bad [OF s1', of tgt] by blast
        qed
        show ?thesis using step_ok_trans [OF d1 s1'] fc sl by blast
      qed
    qed
  qed
  then show "step_ok s s'"
    and "r = Inr u \<Longrightarrow> fresh_covered s s'"
    and "r = Inr u \<Longrightarrow> typeof item = TObject \<Longrightarrow> facade s p = Some (tgt, st, ob) \<Longrightarrow>
           (VK item, v) \<notin> bad s' tgt"
    by blast+
qed

lemma wrap_entry_ok:
  assumes w: "wraps mk" and r: "wrap_entry mk n p strict e s = (r, s')"
  shows "step_ok s s'"
    and "r = Inr u \<Longrightarrow> fresh_covered s s'"
    and "r = Inr u \<Longrightarrow> typeof (snd e) = TObject \<Longrightarrow> facade s p = Some (tgt, st, ob) \<Longrightarrow>
           (VK (fst e), v) \<notin> bad s' tgt"
proof -
  have "step_ok s s' \<and> (r = Inr u \<longrightarrow> fresh_covered s s' \<and>
          (typeof (snd e) = TObject \<longrightarrow> facade s p = Some (tgt, st, ob) \<longrightarrow>
             (VK (fst e), v) \<notin> bad s' tgt))"
  proof (cases "typeof (snd e) = TObject")
    case False
    with r show ?thesis by (simp add: wrap_entry_def fresh_covered_same)
  next
    case True
    with r have b: "bind (Map_wrapper n p ''delete'' [fst e])
             (\<lambda>d. bind (mk (snd e) (fst e) (VObj p) strict)
                (\<lambda>w. bind (Map_wrapper n p ''set'' [fst e, w]) (\<lambda>r. ret ()))) s = (r, s')"
      by (simp add: wrap_entry_def)
    from b show ?thesis
    proof (cases rule: bindE)
      case (err x)
      with Map_wrapper_ok(1) [OF err(1)] show ?thesis by simp
    next
      case (ok d s1)
      note d = Map_wrapper_ok [OF ok(1)]
      have d1: "step_ok s s1" using d(1) by simp
      have dm: "length (heap s1) = length (heap s)" using d(2) by simp
      from ok(2) show ?thesis
      proof (cases rule: bindE)
        case (err x)
        with step_ok_trans [OF d1 wrapsD(1) [OF w err(1)]] show ?thesis by simp
      next
        case ok2: (ok y s2)
        note m = wrapsD [OF w ok2(1)]
        have y: "\<not> unwrapped s2 y" using m(2) by simp
        from ok2(2) obtain r3 where st: "Map_wrapper n p ''set'' [fst e, y] s2 = (r3, s')"
          by (cases rule: bindE) (auto simp: ret_def)
        have a: "step_ok s2 s'" and am: "length (heap s') = length (heap s2)"
          using Map_wrapper_ok(1,2) [OF st] y by simp_all
        have s1': "step_ok s1 s'" by (rule step_ok_trans [OF m(1) a])
        have fc: "fresh_covered s s'"
        proof -
          have "fresh_covered s1 s2" using m(3) by simp
          then have "fresh_covered s1 s'"
            by (rule fresh_covered_trans [OF _ m(1) a fresh_covered_same [OF am]])
          then show ?thesis
            by (rule fresh_covered_trans [OF fresh_covered_same [OF dm] d1 s1'])
        qed
        have sl: "(VK (fst e), v) \<notin> bad s' tgt" if f: "facade s p = Some (tgt, st, ob)"
        proof -
          have "(VK (fst e), v) \<notin> bad s1 tgt" using d(3) [of d tgt st ob v] f by simp
          then show ?thesis using step_ok_bad [OF s1', of tgt] by blast
        qed
        show ?thesis using step_ok_trans [OF d1 s1'] fc sl by blast
      qed
    qed
  qed
  then show "step_ok s s'"
    and "r = Inr u \<Longrightarrow> fresh_covered s s'"
    and "r = Inr u \<Longrightarrow> typeof (snd e) = TObject \<Longrightarrow> facade s p = Some (tgt, st, ob) \<Longrightarrow>
           (VK (fst e), v) \<notin> bad s' tgt"
    by blast+
qed

lemma makeObservable_Suc_facade:
  assumes "\<not> map_has s (VObj a)" and "obj_at s a = Some ob" and "facade_kind ob"
  shows "makeObservable (Suc n) (VObj a) nm par strict s =
     (case new_Proxy a nm par strict s of
        (p, s1) \<Rightarrow> bind (children (makeObservable n) n p strict ob) (\<lambda>u. ret (VObj p)) s1)"
  using assms by (cases ob) (simp_all add: children_def bind_def ret_def split: prod.splits)

lemma for_each_ok:
  fixes f :: "'a \<Rightarrow> state \<Rightarrow> unit result" and cl :: "'a \<Rightarrow> state \<Rightarrow> bool"
  assumes st: "\<And>x s r s'. f x s = (r, s') \<Longrightarrow> step_ok s s'"
    and fc: "\<And>x s u s'. f x s = (Inr u, s') \<Longrightarrow> fresh_covered s s'"
    and c: "\<And>x s u s'. f x s = (Inr u, s') \<Longrightarrow> P s \<Longrightarrow> cl x s'"
    and cs: "\<And>x s s'. cl x s \<Longrightarrow> step_ok s s' \<Longrightarrow> cl x s'"
    and ps: "\<And>s s'. P s \<Longrightarrow> step_ok s s' \<Longrightarrow> P s'"
    and r: "for_each f xs s = (r, s')" and p: "P s"
  shows "step_ok s s' \<and> (\<forall>u. r = Inr u \<longrightarrow> fresh_covered s s' \<and> (\<forall>x\<in>set xs. cl x s'))"
  using r p
proof (induction xs arbitrary: s)
  case Nil
  then show ?case by (simp add: fresh_covered_same)
next
  case (Cons x xs)
  obtain r1 s1 where f: "f x s = (r1, s1)" by (cases "f x s") auto
  show ?case
  proof (cases r1)
    case (Inl e)
    with f Cons.prems(1) st [OF f] show ?thesis by auto
  next
    case (Inr u1)
    with f Cons.prems(1) have rest: "for_each f xs s1 = (r, s')" by simp
    have f': "f x s = (Inr u1, s1)" using f Inr by simp
    have s1: "step_ok s s1" by (rule st [OF f])
    have p1: "P s1" by (rule ps [OF Cons.prems(2) s1])
    note ih = Cons.IH [OF rest p1]
    have "fresh_covered s s' \<and> (\<forall>y\<in>set (x # xs). cl y s')" if "r = Inr u" for u
    proof -
      from ih that have a: "fresh_covered s1 s'" and b: "\<forall>y\<in>set xs. cl y s'" by simp_all
      have "fresh_covered s s'"
        using fresh_covered_trans [OF fc [OF f'] s1 _ a] ih by blast
      moreover have "cl x s'" using cs [OF c [OF f' Cons.prems(2)]] ih by blast
      ultimately show ?thesis using b by simp
    qed
    then show ?thesis using step_ok_trans [OF s1] ih by blast
  qed
qed

lemma array_loop_ok:
  fixes cl :: "nat \<Rightarrow> state \<Rightarrow> bool"
  assumes st: "\<And>i s r s'. body (Index i) s = (r, s') \<Longrightarrow> step_ok s s'"
    and fc: "\<And>i s u s'. body (Index i) s = (Inr u, s') \<Longrightarrow> fresh_covered s s'"
    and c: "\<And>i s u s'. body (Index i) s = (Inr u, s') \<Longrightarrow> P s \<Longrightarrow> cl i s'"
    and cs: "\<And>i s s'. cl i s \<Longrightarrow> step_ok s s' \<Longrightarrow> cl i s'"
    and ps: "\<And>s s'. P s \<Longrightarrow> step_ok s s' \<Longrightarrow> P s'"
    and r: "array_loop k body p i s = (r, s')" and p: "P s" and d: "\<forall>j<i. cl j s"
  shows "step_ok s s' \<and>
         (\<forall>u. r = Inr u \<longrightarrow> fresh_covered s s' \<and>
            (\<forall>j. int j < to_int (get_trap s' p (Name ''length'')) \<longrightarrow> cl j s'))"
  using r p d
proof (induction k arbitrary: i s)
  case 0
  then show ?case by auto
next
  case (Suc k)
  show ?case
  proof (cases "int i < to_int (get_trap s p (Name ''length''))")
    case False
    with Suc.prems(1) have e: "s' = s" "r = Inr ()" by simp_all
    have "cl j s" if "int j < to_int (get_trap s p (Name ''length''))" for j
      using that False Suc.prems(3) by auto
    with e show ?thesis by (simp add: fresh_covered_same)
  next
    case True
    obtain r1 s1 where f: "body (Index i) s = (r1, s1)" by (cases "body (Index i) s") auto
    show ?thesis
    proof (cases r1)
      case (Inl e)
      with f True Suc.prems(1) st [OF f] show ?thesis by auto
    next
      case (Inr u1)
      with f True Suc.prems(1) have rest: "array_loop k body p (Suc i) s1 = (r, s')" by simp
      have f': "body (Index i) s = (Inr u1, s1)" using f Inr by simp
      have s1: "step_ok s s1" by (rule st [OF f])
      have p1: "P s1" by (rule ps [OF Suc.prems(2) s1])
      have d1: "\<forall>j<Suc i. cl j s1"
      proof (intro allI impI)
        fix j assume "j < Suc i"
        then consider "j < i" | "j = i" by linarith
        then show "cl j s1"
        proof cases
          case 1
          with Suc.prems(3) cs s1 show ?thesis by blast
        next
          case 2
          with c [OF f' Suc.prems(2)] show ?thesis by simp
        qed
      qed
      note ih = Suc.IH [OF rest p1 d1]
      have "fresh_covered s s'" if "r = Inr u" for u
        using fresh_covered_trans [OF fc [OF f'] s1] ih that by blast
      then show ?thesis using step_ok_trans [OF s1] ih by blast
    qed
  qed
qed

lemma erase_Arr: "erase ob = Arr [] \<Longrightarrow> \<exists>ys. ob = Arr ys"
  by (cases ob) auto

lemma array_index_key: "array_index k \<Longrightarrow> Index (index_of k) = k"
  by (cases k) simp_all

lemma set_Object_keys: "set (Object_keys fs) = fst ` set fs"
proof -
  have "Index ` index_of ` {k \<in> fst ` set fs. array_index k} = {k \<in> fst ` set fs. array_index k}"
    by (force simp: array_index_key image_iff)
  then show ?thesis by (auto simp: Object_keys_def image_image)
qed

lemma children_ok:
  assumes w: "wraps mk" and f: "facade s p = Some (a, st, ob)"
    and r: "children mk n p strict ob s = (r, s')"
  shows "step_ok s s'"
    and "r = Inr u \<Longrightarrow> fresh_covered s s'"
    and "r = Inr u \<Longrightarrow> bad s' a = {}"
proof -
  let ?P = "\<lambda>s. \<exists>ob. facade s p = Some (a, st, ob)"
  have P: "?P s" using f by blast
  have ps: "\<And>s s'. ?P s \<Longrightarrow> step_ok s s' \<Longrightarrow> ?P s'"
    using step_ok_facade by blast
  from facade_SomeD [OF f] have a: "a < length (heap s)" and o: "heap s ! a = ob" by simp_all
  have "step_ok s s' \<and> (r = Inr u \<longrightarrow> fresh_covered s s' \<and> bad s' a = {})"
  proof (cases ob)
    case (Plain fs)
    let ?cl = "\<lambda>k s. \<forall>v. (PK k, v) \<notin> bad s a"
    from r Plain have l: "for_each (wrap_member mk n p strict) (Object_keys fs) s = (r, s')"
      by (simp add: children_def)
    have res: "step_ok s s' \<and>
        (\<forall>u. r = Inr u \<longrightarrow> fresh_covered s s' \<and> (\<forall>x\<in>set (Object_keys fs). ?cl x s'))"
    proof (rule for_each_ok [where P = ?P and cl = ?cl, OF _ _ _ _ ps l P])
      show "\<And>x s r s'. wrap_member mk n p strict x s = (r, s') \<Longrightarrow> step_ok s s'"
        using wrap_member_ok(1) [OF w] by blast
      show "\<And>x s u s'. wrap_member mk n p strict x s = (Inr u, s') \<Longrightarrow> fresh_covered s s'"
        using wrap_member_ok(2) [OF w] by blast
      show "\<And>x s u s'. wrap_member mk n p strict x s = (Inr u, s') \<Longrightarrow> ?P s \<Longrightarrow> ?cl x s'"
        using wrap_member_ok(3) [OF w] by blast
      show "\<And>x s s'. ?cl x s \<Longrightarrow> step_ok s s' \<Longrightarrow> ?cl x s'"
        using step_ok_bad by blast
    qed
    have "bad s' a = {}" if "r = Inr u"
    proof (rule ccontr)
      assume "bad s' a \<noteq> {}"
      then obtain kv where kv: "kv \<in> bad s' a" by blast
      with res step_ok_bad have "kv \<in> bad s a" by blast
      with a o Plain obtain k v where e: "kv = (PK k, v)" and m: "map_of fs k = Some v"
        by (auto simp: bad_def)
      from m have "k \<in> set (Object_keys fs)"
        unfolding set_Object_keys by (metis map_of_eq_None_iff option.distinct(1))
      with res that have "?cl k s'" by blast
      with kv e show False by blast
    qed
    with res show ?thesis by blast
  next
    case (Arr xs)
    let ?cl = "\<lambda>j s. \<forall>v. (PK (Index j), v) \<notin> bad s a"
    from r Arr have l: "array_loop n (wrap_member mk n p strict) p 0 s = (r, s')"
      by (simp add: children_def)
    have res: "step_ok s s' \<and>
        (\<forall>u. r = Inr u \<longrightarrow> fresh_covered s s' \<and>
           (\<forall>j. int j < to_int (get_trap s' p (Name ''length'')) \<longrightarrow> ?cl j s'))"
    proof (rule array_loop_ok [where P = ?P and cl = ?cl, OF _ _ _ _ ps l P])
      show "\<And>i s r s'. wrap_member mk n p strict (Index i) s = (r, s') \<Longrightarrow> step_ok s s'"
        using wrap_member_ok(1) [OF w] by blast
      show "\<And>i s u s'. wrap_member mk n p strict (Index i) s = (Inr u, s') \<Longrightarrow> fresh_covered s s'"
        using wrap_member_ok(2) [OF w] by blast
      show "\<And>i s u s'. wrap_member mk n p strict (Index i) s = (Inr u, s') \<Longrightarrow> ?P s \<Longrightarrow> ?cl i s'"
        using wrap_member_ok(3) [OF w] by blast
      show "\<And>i s s'. ?cl i s \<Longrightarrow> step_ok s s' \<Longrightarrow> ?cl i s'"
        using step_ok_bad by blast
      show "\<forall>j<0. ?cl j s" by simp
    qed
    have "bad s' a = {}" if "r = Inr u"
    proof (rule ccontr)
      assume "bad s' a \<noteq> {}"
      then obtain kv where kv: "kv \<in> bad s' a" by blast
      from res step_ok_facade [OF _ f] obtain ob' where f': "facade s' p = Some (a, st, ob')"
        and e: "erase ob' = erase ob" by blast
      from e Arr obtain ys where ys: "ob' = Arr ys" using erase_Arr by auto
      from facade_SomeD [OF f'] have a': "a < length (heap s')" and o': "heap s' ! a = Arr ys"
        by (simp_all add: ys)
      from kv a' o' obtain j where j: "j < length ys" and kj: "kv = (PK (Index j), ys ! j)"
        by (auto simp: bad_def)
      have "get_trap s' p (Name ''length'') = VNum (int (length ys))"
        using f' ys by (simp add: get_trap_def)
      with j res that have "?cl j s'" by simp
      with kv kj show False by blast
    qed
    with res show ?thesis by blast
  next
    case (SetO xs)
    let ?cl = "\<lambda>x s. typeof x = TObject \<longrightarrow> (\<forall>v. (VK x, v) \<notin> bad s a)"
    from r SetO have l: "for_each (wrap_item mk n p strict) xs s = (r, s')"
      by (simp add: children_def)
    have res: "step_ok s s' \<and>
        (\<forall>u. r = Inr u \<longrightarrow> fresh_covered s s' \<and> (\<forall>x\<in>set xs. ?cl x s'))"
    proof (rule for_each_ok [where P = ?P and cl = ?cl, OF _ _ _ _ ps l P])
      show "\<And>x s r s'. wrap_item mk n p strict x s = (r, s') \<Longrightarrow> step_ok s s'"
        using wrap_item_ok(1) [OF w] by blast
      show "\<And>x s u s'. wrap_item mk n p strict x s = (Inr u, s') \<Longrightarrow> fresh_covered s s'"
        using wrap_item_ok(2) [OF w] by blast
      show "\<And>x s u s'. wrap_item mk n p strict x s = (Inr u, s') \<Longrightarrow> ?P s \<Longrightarrow> ?cl x s'"
        using wrap_item_ok(3) [OF w] by blast
      show "\<And>x s s'. ?cl x s \<Longrightarrow> step_ok s s' \<Longrightarrow> ?cl x s'"
        using step_ok_bad by blast
    qed
    have "bad s' a = {}" if "r = Inr u"
    proof (rule ccontr)
      assume "bad s' a \<noteq> {}"
      then obtain kv where kv: "kv \<in> bad s' a" by blast
      with res step_ok_bad have "kv \<in> bad s a" by blast
      with a o SetO obtain v where e: "kv = (VK v, v)" and m: "v \<in> set xs" and t: "typeof v = TObject"
        by (auto simp: bad_def unwrapped_def)
      with res that have "\<forall>v'. (VK v, v') \<notin> bad s' a" by blast
      with kv e show False by blast
    qed
    with res show ?thesis by blast
  next
    case (MapO kvs)
    let ?cl = "\<lambda>e s. typeof (snd e) = TObject \<longrightarrow> (\<forall>v. (VK (fst e), v) \<notin> bad s a)"
    from r MapO have l: "for_each (wrap_entry mk n p strict) kvs s = (r, s')"
      by (simp add: children_def)
    have res: "step_ok s s' \<and>
        (\<forall>u. r = Inr u \<longrightarrow> fresh_covered s s' \<and> (\<forall>x\<in>set kvs. ?cl x s'))"
    proof (rule for_each_ok [where P = ?P and cl = ?cl, OF _ _ _ _ ps l P])
      show "\<And>x s r s'. wrap_entry mk n p strict x s = (r, s') \<Longrightarrow> step_ok s s'"
        using wrap_entry_ok(1) [OF w] by blast
      show "\<And>x s u s'. wrap_entry mk n p strict x s = (Inr u, s') \<Longrightarrow> fresh_covered s s'"
        using wrap_entry_ok(2) [OF w] by blast
      show "\<And>x s u s'. wrap_entry mk n p strict x s = (Inr u, s') \<Longrightarrow> ?P s \<Longrightarrow> ?cl x s'"
        using wrap_entry_ok(3) [OF w] by blast
      show "\<And>x s s'. ?cl x s \<Longrightarrow> step_ok s s' \<Longrightarrow> ?cl x s'"
        using step_ok_bad by blast
    qed
    have "bad s' a = {}" if "r = Inr u"
    proof (rule ccontr)
      assume "bad s' a \<noteq> {}"
      then obtain kv where kv: "kv \<in> bad s' a" by blast
      with res step_ok_bad have "kv \<in> bad s a" by blast
      with a o MapO obtain k v where e: "kv = (VK k, v)" and m: "map_of kvs k = Some v"
        and t: "typeof v = TObject"
        by (auto simp: bad_def unwrapped_def)
      from m have "(k, v) \<in> set kvs" by (rule map_of_SomeD)
      with res that t have "\<forall>v'. (VK k, v') \<notin> bad s' a" by fastforce
      with kv e show False by blast
    qed
    with res show ?thesis by blast
  next
    case (WeakSetO xs)
    with r a o show ?thesis by (auto simp: children_def ret_def fresh_covered_same bad_def)
  next
    case (WeakMapO kvs)
    with r a o show ?thesis by (auto simp: children_def ret_def fresh_covered_same bad_def)
  next
    case (TypedArr tk xs)
    with r a o show ?thesis by (auto simp: children_def ret_def fresh_covered_same bad_def)
  next
    case (Opaque k)
    with r a o show ?thesis by (auto simp: children_def ret_def fresh_covered_same bad_def)
  next
    case Other
    with r a o show ?thesis by (auto simp: children_def ret_def fresh_covered_same bad_def)
  next
    case (Proxy t b)
    with r a o show ?thesis by (auto simp: children_def ret_def fresh_covered_same bad_def)
  qed
  then show "step_ok s s'"
    and "r = Inr u \<Longrightarrow> fresh_covered s s'"
    and "r = Inr u \<Longrightarrow> bad s' a = {}"
    by blast+
qed

lemma makeObservable_facade_ok:
  assumes w: "wraps (makeObservable n)" and nh: "\<not> map_has s (VObj a)"
    and o: "obj_at s a = Some ob" and k: "facade_kind ob"
    and r: "makeObservable (Suc n) (VObj a) nm par strict s = (r, s')"
  shows "step_ok s s'"
    and "observableMap s' (length (heap s)) =
           Some \<lparr>raw = VObj a, name = nm, parent = par, callbacks = [], paused = (\<lambda>cb. None)\<rparr>"
    and "heap s' ! length (heap s) = Proxy a strict"
    and "length (heap s) < length (heap s')"
    and "r = Inr v \<Longrightarrow> v = VObj (length (heap s))"
    and "r = Inr v \<Longrightarrow> fresh_covered s s'"
proof -
  let ?p = "length (heap s)"
  define s1 where "s1 = s\<lparr>heap := heap s @ [Proxy a strict],
        observableMap := (observableMap s)(length (heap s) \<mapsto>
          \<lparr>raw = VObj a, name = nm, parent = par, callbacks = [], paused = (\<lambda>cb. None)\<rparr>)\<rparr>"
  have np: "new_Proxy a nm par strict s = (?p, s1)" by (simp add: new_Proxy_eq s1_def)
  from o have a: "a < length (heap s)" and oa: "heap s ! a = ob"
    by (simp_all add: obj_at_def split: if_splits)
  have b: "bind (children (makeObservable n) n ?p strict ob) (\<lambda>u. ret (VObj ?p)) s1 = (r, s')"
    using r makeObservable_Suc_facade [OF nh o k, of n nm par strict] np by simp
  have f1: "facade s1 ?p = Some (a, strict, ob)"
    using a oa by (simp add: facade_def obj_at_def s1_def nth_append)
  obtain r2 where c: "children (makeObservable n) n ?p strict ob s1 = (r2, s')"
    and rr: "r = Inr v \<Longrightarrow> r2 = Inr () \<and> v = VObj ?p"
    using b by (cases rule: bindE) (auto simp: ret_def)
  note ch = children_ok [OF w f1 c]
  have s01: "step_ok s s1" by (rule step_ok_new_Proxy [OF np])
  have l1: "length (heap s1) = Suc ?p" by (simp add: s1_def)
  show "step_ok s s'" by (rule step_ok_trans [OF s01 ch(1)])
  show "observableMap s' ?p =
           Some \<lparr>raw = VObj a, name = nm, parent = par, callbacks = [], paused = (\<lambda>cb. None)\<rparr>"
    using step_ok_map_old [OF ch(1), of ?p] l1 by (simp add: s1_def)
  have "erase (heap s' ! ?p) = erase (heap s1 ! ?p)"
    using step_ok_erase [OF ch(1), of ?p] l1 by simp
  then show hp: "heap s' ! ?p = Proxy a strict"
    by (simp add: s1_def erase_Proxy)
  show "?p < length (heap s')" using step_ok_len [OF ch(1)] l1 by simp
  show "v = VObj ?p" if "r = Inr v" using rr [OF that] by simp
  show "fresh_covered s s'" if "r = Inr v"
    unfolding fresh_covered_def
  proof (intro allI impI)
    fix q t st
    assume q: "?p \<le> q" "q < length (heap s')" "heap s' ! q = Proxy t st"
    from rr [OF that] have r2: "r2 = Inr ()" by simp
    show "bad s' t = {}"
    proof (cases "q = ?p")
      case True
      with q(3) hp have "t = a" by simp
      with ch(3) [OF r2] show ?thesis by simp
    next
      case False
      with q(1) l1 have "length (heap s1) \<le> q" by simp
      with ch(2) [OF r2] q(2,3) show ?thesis unfolding fresh_covered_def by blast
    qed
  qed
qed

lemma passed_through_unwrapped: "passed_through s v \<Longrightarrow> \<not> unwrapped s v"
  by (simp add: unwrapped_def)

lemma makeObservable_wraps: "wraps (makeObservable n)"
proof (induction n)
  case 0
  show ?case by (simp add: wraps_def)
next
  case (Suc n)
  show ?case
    unfolding wraps_def
  proof (intro allI impI)
    fix ob nm par strict s r s'
    assume r: "makeObservable (Suc n) ob nm par strict s = (r, s')"
    show "step_ok s s' \<and>
          (\<forall>v. r = Inr v \<longrightarrow> typeof v = TObject \<and> \<not> unwrapped s' v \<and> fresh_covered s s')"
    proof (cases "typeof ob = TObject")
      case False
      with r show ?thesis by auto
    next
      case True
      show ?thesis
      proof (cases "map_has s ob")
        case h: True
        with True r have "r = Inr ob" "s' = s" by simp_all
        with h True show ?thesis by (simp add: unwrapped_def fresh_covered_same)
      next
        case nh: False
        show ?thesis
        proof (cases ob)
          case (VObj a)
          show ?thesis
          proof (cases "obj_at s a")
            case None
            with True nh VObj r show ?thesis by auto
          next
            case (Some x)
            show ?thesis
            proof (cases "facade_kind x")
              case k: True
              note f = makeObservable_facade_ok [OF Suc nh [unfolded VObj] Some k r [unfolded VObj]]
              have "typeof v = TObject \<and> \<not> unwrapped s' v" if "r = Inr v" for v
                using f(5) [OF that] f(2) by (simp add: unwrapped_def)
              with f(1) f(6) show ?thesis by blast
            next
              case False
              from Some have a: "a < length (heap s)" and oa: "heap s ! a = x"
                by (simp_all add: obj_at_def split: if_splits)
              from False consider (op) k where "x = Opaque k" | (ot) "x = Other"
                | (px) t st where "x = Proxy t st"
                by (cases x) auto
              then show ?thesis
              proof cases
                case op
                with True nh VObj Some r have e: "r = Inr ob" "s' = s" by simp_all
                have "passed_through s ob" using VObj a oa op by simp
                with e \<open>typeof ob = TObject\<close> show ?thesis
                    by (simp add: passed_through_unwrapped fresh_covered_same)
              next
                case ot
                show ?thesis
                proof (cases strict)
                  case True
                  with \<open>typeof ob = TObject\<close> nh VObj Some ot r show ?thesis by auto
                next
                  case False
                  with \<open>typeof ob = TObject\<close> nh VObj Some ot r have e: "r = Inr ob" "s' = s"
                    by simp_all
                  have "passed_through s ob" using VObj a oa ot by simp
                  with e \<open>typeof ob = TObject\<close> show ?thesis
                    by (simp add: passed_through_unwrapped fresh_covered_same)
                qed
              next
                case px
                with True nh VObj Some r show ?thesis by auto
              qed
            qed
          qed
        next
          case VNull
          with r show ?thesis by auto
        qed (use True in simp_all)
      qed
    qed
  qed
qed




lemma observable_raw:
  assumes o: "obj_at s a = Some ob" and k: "facade_kind ob" and nh: "\<not> map_has s (VObj a)"
    and r: "observable n (VObj a) strict s = (Inr f, s')"
  shows "f = VObj (length (heap s))"
    and "observableMap s' (length (heap s)) =
           Some \<lparr>raw = VObj a, name = VStr [], parent = VNull, callbacks = [],
                 paused = (\<lambda>cb. None)\<rparr>"
    and "step_ok s s'"
proof -
  from r nh have m: "makeObservable n (VObj a) (VStr []) VNull strict s = (Inr f, s')"
    by (simp add: observable_def isObservable_def bind_def)
  then obtain k' where n: "n = Suc k'" by (cases n) auto
  note f = makeObservable_facade_ok [OF makeObservable_wraps nh o k m [unfolded n]]
  show "f = VObj (length (heap s))" using f(5) by simp
  show "observableMap s' (length (heap s)) =
           Some \<lparr>raw = VObj a, name = VStr [], parent = VNull, callbacks = [],
                 paused = (\<lambda>cb. None)\<rparr>" by (rule f(2))
  show "step_ok s s'" by (rule f(1))
qed

subsection \<open>The calls made while a value is wrapped\<close>

lemma told_append [simp]: "told cb (xs @ ys) = told cb xs + told cb ys"
  by (simp add: told_def)

lemma told_Nil [simp]: "told cb [] = 0"
  by (simp add: told_def)

lemma told_map:
  "cb \<in> set cbs \<Longrightarrow> 1 \<le> told cb (map (\<lambda>c. (c, ob)) cbs)"
  by (induction cbs) (auto simp: told_def)

lemma call_all_calls:
  "calls (call_all i ob s) =
     calls s @ map (\<lambda>cb. (cb, ob)) (filter (\<lambda>cb. paused i cb \<noteq> Some True) (callbacks i))"
  by (simp add: call_all_def)

lemma trigger_calls_eq:
  assumes "triggerObserver n ty tgt pth vnew vold s = (r, s')"
  shows "\<exists>cs. calls s' = calls s @ cs"
  using triggerObserver_calls [of n ty tgt pth vnew vold s] assms by simp

lemma trigger_root_told:
  assumes t: "triggerObserver n ty (VObj R) pth vnew vold s = (Inr u, s')"
    and iR: "observableMap s R = Some iR" "cb \<in> set (callbacks iR)" "paused iR cb \<noteq> Some True"
  shows "\<exists>pre post. calls s' = calls s @ pre @
            (cb, \<lparr>etype = ty, target = VObj R, path = pth, valueNew = vnew, valueOld = vold\<rparr>) # post"
proof -
  from t obtain m where n: "n = Suc m" by (cases n) auto
  let ?ob = "\<lparr>etype = ty, target = VObj R, path = pth, valueNew = vnew, valueOld = vold\<rparr>"
  let ?s1 = "call_all iR ?ob s"
  from iR(2,3) have "cb \<in> set (filter (\<lambda>cb. paused iR cb \<noteq> Some True) (callbacks iR))" by simp
  then obtain l1 l2 where l: "filter (\<lambda>cb. paused iR cb \<noteq> Some True) (callbacks iR) = l1 @ cb # l2"
    by (meson split_list)
  have c1: "calls ?s1 = calls s @ map (\<lambda>cb. (cb, ?ob)) l1 @ (cb, ?ob) # map (\<lambda>cb. (cb, ?ob)) l2"
    by (simp add: call_all_calls l)
  have "\<exists>cs. calls s' = calls ?s1 @ cs"
  proof (cases "parent iR = VNull")
    case True
    with t n iR(1) show ?thesis by (simp add: Let_def)
  next
    case False
    with t n iR(1) have "triggerObserver m ty (parent iR)
        (VStr (to_String (name iR) @ ''.'' @ to_String pth)) vnew vold ?s1 = (Inr u, s')"
      by (simp add: Let_def)
    then show ?thesis by (rule trigger_calls_eq)
  qed
  then obtain cs where "calls s' = calls ?s1 @ cs" by blast
  with c1 have "calls s' = calls s @ map (\<lambda>cb. (cb, ?ob)) l1 @
      (cb, ?ob) # (map (\<lambda>cb. (cb, ?ob)) l2 @ cs)" by simp
  then show ?thesis by blast
qed

lemma trigger_child_told:
  assumes t: "triggerObserver n ty (VObj p) pth vnew vold s = (Inr u, s')"
    and ip: "observableMap s p = Some ip" "parent ip = VObj R"
    and iR: "observableMap s R = Some iR" "cb \<in> set (callbacks iR)" "paused iR cb \<noteq> Some True"
  shows "\<exists>cs. calls s' = calls s @ cs \<and> 1 \<le> told cb cs"
proof -
  from t obtain m where n: "n = Suc m" by (cases n) auto
  let ?s1 = "call_all ip \<lparr>etype = ty, target = VObj p, path = pth, valueNew = vnew,
                           valueOld = vold\<rparr> s"
  obtain c1 where c1: "calls ?s1 = calls s @ c1" by (simp add: call_all_calls)
  from t n ip have t2: "triggerObserver m ty (VObj R)
      (VStr (to_String (name ip) @ ''.'' @ to_String pth)) vnew vold ?s1 = (Inr u, s')"
    by (simp add: Let_def)
  have "observableMap ?s1 R = Some iR" using iR(1) by simp
  from trigger_root_told [OF t2 this iR(2,3)] obtain pre post ob where
    "calls s' = calls ?s1 @ pre @ (cb, ob) # post" by blast
  with c1 have "calls s' = calls s @ (c1 @ pre @ (cb, ob) # post)" by simp
  moreover have "1 \<le> told cb (c1 @ pre @ (cb, ob) # post)" by (simp add: told_def)
  ultimately show ?thesis by blast
qed

lemma set_trap_told:
  assumes w: "wraps mk" and r: "set_trap mk n p k x s = (Inr b, s')" and tx: "typeof x = TObject"
    and ip: "observableMap s p = Some ip" "parent ip = VObj R" "p < length (heap s)"
    and iR: "observableMap s R = Some iR" "R < length (heap s)"
            "cb \<in> set (callbacks iR)" "paused iR cb \<noteq> Some True"
  shows "\<exists>cs. calls s' = calls s @ cs \<and> 1 \<le> told cb cs"
proof (cases "facade s p")
  case None
  with r show ?thesis by (simp add: set_trap_def)
next
  case (Some f)
  obtain t strict ob0 where f: "f = (t, strict, ob0)" by (cases f) auto
  let ?M = "if typeof x = TObject
            then bind (isObservable x)
                   (\<lambda>b. if \<not> b then mk x (VStr (key_String k)) (VObj p) strict else ret x)
            else ret x"
  let ?F = "\<lambda>v s1. case obj_at s1 t of
               None \<Rightarrow> (Inl OutsideModel, s1)
             | Some ob1 \<Rightarrow>
                 bind (triggerObserver n Change (VObj p) (VStr (key_String k)) v
                         (Reflect_get ob0 k))
                   (\<lambda>u. ret True) (store t (Reflect_set ob1 k v) s1)"
  from r Some f have b: "bind ?M ?F s = (Inr b, s')"
    by (simp add: set_trap_def Let_def)
  from b show ?thesis
  proof (cases rule: bindE)
    case (err e)
    then show ?thesis by simp
  next
    case (ok y s1)
    note v = value_ok [OF w ok(1)]
    obtain c1 where c1: "calls s1 = calls s @ c1" using step_ok_calls [OF v(1)] by blast
    have m1: "observableMap s1 p = Some ip" "observableMap s1 R = Some iR"
      using step_ok_map_old [OF v(1)] ip iR by simp_all
    from ok(2) obtain ob1 where o1: "obj_at s1 t = Some ob1"
      by (cases "obj_at s1 t") auto
    let ?s2 = "store t (Reflect_set ob1 k y) s1"
    from ok(2) o1 have "bind (triggerObserver n Change (VObj p) (VStr (key_String k)) y
                         (Reflect_get ob0 k)) (\<lambda>u. ret True) ?s2 = (Inr b, s')"
      by simp
    then obtain u where tr: "triggerObserver n Change (VObj p) (VStr (key_String k)) y
                         (Reflect_get ob0 k) ?s2 = (Inr u, s')"
      by (cases rule: bindE) (auto simp: ret_def)
    have m2: "observableMap ?s2 p = Some ip" "observableMap ?s2 R = Some iR"
      using m1 by simp_all
    from trigger_child_told [OF tr m2(1) ip(2) m2(2) iR(3,4)]
    obtain c2 where "calls s' = calls ?s2 @ c2" and "1 \<le> told cb c2" by blast
    with c1 have "calls s' = calls s @ (c1 @ c2)" and "1 \<le> told cb (c1 @ c2)" by simp_all
    then show ?thesis by blast
  qed
qed

lemma wrap_member_told:
  assumes w: "wraps mk" and r: "wrap_member mk n p strict k s = (Inr u, s')"
    and ip: "observableMap s p = Some ip" "parent ip = VObj R" "p < length (heap s)"
    and iR: "observableMap s R = Some iR" "R < length (heap s)"
            "cb \<in> set (callbacks iR)" "paused iR cb \<noteq> Some True"
  shows "\<exists>cs. calls s' = calls s @ cs \<and>
          (typeof (get_trap s p k) = TObject \<longrightarrow> 1 \<le> told cb cs)"
proof (cases "typeof (get_trap s p k) = TObject")
  case False
  with r show ?thesis by (simp add: wrap_member_def)
next
  case True
  with r have b: "bind (mk (get_trap s p k) (VStr (key_String k)) (VObj p) strict)
           (\<lambda>w. bind (set_trap mk n p k w) (\<lambda>b. ret ())) s = (Inr u, s')"
    by (simp add: wrap_member_def)
  from b show ?thesis
  proof (cases rule: bindE)
    case (err e)
    then show ?thesis by simp
  next
    case (ok y s1)
    note m = wrapsD [OF w ok(1)]
    obtain c1 where c1: "calls s1 = calls s @ c1" using step_ok_calls [OF m(1)] by blast
    have m1: "observableMap s1 p = Some ip" "observableMap s1 R = Some iR"
      using step_ok_map_old [OF m(1)] ip iR by simp_all
    have l1: "p < length (heap s1)" "R < length (heap s1)"
      using step_ok_len [OF m(1)] ip(3) iR(2) by simp_all
    from ok(2) obtain b where st: "set_trap mk n p k y s1 = (Inr b, s')"
      by (cases rule: bindE) (auto simp: ret_def)
    from set_trap_told [OF w st m(4) [OF refl] m1(1) ip(2) l1(1) m1(2) l1(2) iR(3,4)]
    obtain c2 where "calls s' = calls s1 @ c2" and "1 \<le> told cb c2" by blast
    with c1 have "calls s' = calls s @ (c1 @ c2)" and "1 \<le> told cb (c1 @ c2)" by simp_all
    then show ?thesis by blast
  qed
qed

lemma bind_cong_at: "m s = m' s \<Longrightarrow> bind m f s = bind m' f s"
  by (simp add: bind_def)

lemma filter_length_mono:
  "(\<And>x. x \<in> set xs \<Longrightarrow> P x \<Longrightarrow> Q x) \<Longrightarrow> length (filter P xs) \<le> length (filter Q xs)"
  by (induction xs) auto

lemma member_loop_told:
  assumes w: "wraps mk"
    and r: "for_each (wrap_member mk n p strict) ks s = (Inr u, s')"
    and f: "facade s p = Some (x, st, ob)"
    and ip: "observableMap s p = Some ip" "parent ip = VObj R"
    and iR: "observableMap s R = Some iR" "R < length (heap s)"
            "cb \<in> set (callbacks iR)" "paused iR cb \<noteq> Some True"
  shows "\<exists>cs. calls s' = calls s @ cs \<and>
          length (filter (\<lambda>k. typeof (Reflect_get ob k) = TObject) ks) \<le> told cb cs"
  using r f ip(1) iR(1,2)
proof (induction ks arbitrary: s ob)
  case Nil
  then show ?case by simp
next
  case (Cons k ks)
  obtain r1 s1 where st: "wrap_member mk n p strict k s = (r1, s1)"
    by (cases "wrap_member mk n p strict k s") auto
  with Cons.prems(1) obtain u1 where r1: "r1 = Inr u1" and rest:
    "for_each (wrap_member mk n p strict) ks s1 = (Inr u, s')"
    by (cases r1) auto
  note fp = facade_SomeD [OF Cons.prems(2)]
  have pl: "p < length (heap s)" using fp by simp
  from wrap_member_told [OF w st [unfolded r1] Cons.prems(3) ip(2) pl Cons.prems(4,5) iR(3,4)]
  obtain c1 where c1: "calls s1 = calls s @ c1"
    and t1: "typeof (get_trap s p k) = TObject \<longrightarrow> 1 \<le> told cb c1" by blast
  have so: "step_ok s s1" by (rule wrap_member_ok(1) [OF w st])
  from step_ok_facade [OF so Cons.prems(2)] obtain ob1 where
    f1: "facade s1 p = Some (x, st, ob1)" by blast
  have m1: "observableMap s1 p = Some ip" "observableMap s1 R = Some iR"
    using step_ok_map_old [OF so] Cons.prems(3,4,5) pl by simp_all
  have l1: "R < length (heap s1)" using step_ok_len [OF so] Cons.prems(5) by simp
  from Cons.IH [OF rest f1 m1(1) m1(2) l1] obtain c2 where c2: "calls s' = calls s1 @ c2"
    and t2: "length (filter (\<lambda>k. typeof (Reflect_get ob1 k) = TObject) ks) \<le> told cb c2"
    by blast
  have ob: "heap s ! x = ob" "x < length (heap s)" using fp by simp_all
  have ob1: "heap s1 ! x = ob1" using facade_SomeD [OF f1] by simp
  have mono: "typeof (Reflect_get ob1 k') = TObject" if "typeof (Reflect_get ob k') = TObject" for k'
    using step_ok_object [OF so ob(2), of k'] that ob(1) ob1 by simp
  have "length (filter (\<lambda>k. typeof (Reflect_get ob k) = TObject) ks)
        \<le> length (filter (\<lambda>k. typeof (Reflect_get ob1 k) = TObject) ks)"
    by (rule filter_length_mono) (rule mono)
  moreover have "get_trap s p k = Reflect_get ob k"
    using Cons.prems(2) by (simp add: get_trap_def)
  ultimately have "length (filter (\<lambda>k. typeof (Reflect_get ob k) = TObject) (k # ks))
        \<le> told cb (c1 @ c2)"
    using t1 t2 by auto
  moreover have "calls s' = calls s @ (c1 @ c2)" using c1 c2 by simp
  ultimately show ?case by blast
qed

subsection \<open>Wrapping a tree of plain objects and arrays\<close>

lemma changes_simps [simp]:
  "changes []"
  "changes (c # cs) \<longleftrightarrow> etype (snd c) = Change \<and> changes cs"
  "changes (cs @ ds) \<longleftrightarrow> changes cs \<and> changes ds"
  by (simp_all add: changes_def)

lemma told_Cons [simp]: "told cb (c # cs) = (if fst c = cb then 1 else 0) + told cb cs"
  by (simp add: told_def)

lemma told_calls: "told cb (map (\<lambda>c. (c, ev)) (filter P cbs)) = length (filter (\<lambda>c. c = cb \<and> P c) cbs)"
  by (induction cbs) auto

lemma chain_step:
  assumes "chain cb s q L c" and st: "step_ok s s'"
  shows "chain cb s' q L c"
  using assms(1)
proof (induction rule: chain.induct)
  case (top q i)
  show ?case
    using chain.top [of s' q i cb] top step_ok_map_old [OF st, of q] step_ok_len [OF st]
    by simp
next
  case (up q i q' L c)
  show ?case
    using chain.up [of s' q i q' cb L c] up step_ok_map_old [OF st, of q] step_ok_len [OF st]
    by simp
qed

lemma chain_trigger:
  assumes "chain cb s q L c" and "observableMap s1 = observableMap s" and "L \<le> n"
  shows "\<exists>cs. triggerObserver n ty (VObj q) pth vnew vold s1 =
                 (Inr (), s1\<lparr>calls := calls s1 @ cs\<rparr>) \<and>
              told cb cs = c \<and>
              list_all (\<lambda>x. etype (snd x) = ty \<and> valueNew (snd x) = vnew) cs"
  using assms
proof (induction arbitrary: n pth s1 rule: chain.induct)
  case (top q i)
  from top(5) obtain m where n: "n = Suc m" by (cases n) auto
  let ?ev = "\<lparr>etype = ty, target = VObj q, path = pth, valueNew = vnew, valueOld = vold\<rparr>"
  let ?cs = "map (\<lambda>c. (c, ?ev)) (filter (\<lambda>c. paused i c \<noteq> Some True) (callbacks i))"
  have "triggerObserver n ty (VObj q) pth vnew vold s1 = (Inr (), s1\<lparr>calls := calls s1 @ ?cs\<rparr>)"
    using top(1,2,4) by (simp add: n Let_def call_all_def)
  moreover have "told cb ?cs = active cb i" by (simp add: told_calls active_def)
  moreover have "list_all (\<lambda>x. etype (snd x) = ty \<and> valueNew (snd x) = vnew) ?cs"
    by (simp add: list_all_iff)
  ultimately show ?case by blast
next
  case (up q i q' L c)
  from up(7) obtain m where n: "n = Suc m" and m: "L \<le> m" by (cases n) auto
  let ?ev = "\<lparr>etype = ty, target = VObj q, path = pth, valueNew = vnew, valueOld = vold\<rparr>"
  let ?cs = "map (\<lambda>c. (c, ?ev)) (filter (\<lambda>c. paused i c \<noteq> Some True) (callbacks i))"
  let ?s2 = "s1\<lparr>calls := calls s1 @ ?cs\<rparr>"
  have m2: "observableMap ?s2 = observableMap s" using up(6) by simp
  from up.IH [OF m2 m, of "VStr (to_String (name i) @ ''.'' @ to_String pth)"]
  obtain cs' where t: "triggerObserver m ty (VObj q')
        (VStr (to_String (name i) @ ''.'' @ to_String pth)) vnew vold ?s2 =
          (Inr (), ?s2\<lparr>calls := calls ?s2 @ cs'\<rparr>)"
    and c: "told cb cs' = c"
    and l: "list_all (\<lambda>x. etype (snd x) = ty \<and> valueNew (snd x) = vnew) cs'"
    by blast
  have "triggerObserver n ty (VObj q) pth vnew vold s1 =
          (Inr (), s1\<lparr>calls := calls s1 @ (?cs @ cs')\<rparr>)"
    using up(1,2,6) t by (simp add: n Let_def call_all_def)
  moreover have "told cb (?cs @ cs') = active cb i + c"
    using c by (simp add: told_calls active_def)
  moreover have "list_all (\<lambda>x. etype (snd x) = ty \<and> valueNew (snd x) = vnew) (?cs @ cs')"
    using l by (auto simp: list_all_iff)
  ultimately show ?case by blast
qed

lemma kept_erase: "kept st (erase ob) = kept st ob"
  by (cases ob) simp_all

lemma settled_step:
  assumes "settled st s v" and so: "step_ok s s'"
  shows "settled st s' v"
proof -
  from assms(1) obtain a where v: "v = VObj a" by (cases v) auto
  show ?thesis
  proof (cases "observableMap s a")
    case (Some i)
    from step_ok_map_dom [OF so this] v show ?thesis by auto
  next
    case None
    with assms(1) v have a: "a < length (heap s)" and k: "kept st (heap s ! a)" by simp_all
    from step_ok_erase [OF so a] k have "kept st (heap s' ! a)" by (metis kept_erase)
    with a step_ok_len [OF so] v show ?thesis by simp
  qed
qed

lemma settled_object: "settled st s v \<Longrightarrow> typeof v = TObject"
  by (cases v) simp_all

lemma settled_mk:
  assumes "settled st s v"
  shows "makeObservable (Suc n) v nm par st s = (Inr v, s)"
proof -
  from assms obtain a where v: "v = VObj a" by (cases v) auto
  show ?thesis
  proof (cases "observableMap s a")
    case (Some i)
    with v show ?thesis by simp
  next
    case None
    with assms v have a: "a < length (heap s)" and k: "kept st (heap s ! a)" by simp_all
    from k show ?thesis using None a v by (cases "heap s ! a") (simp_all add: obj_at_def)
  qed
qed

lemma set_trap_run:
  assumes fac: "facade s p = Some (a, st, ob)" and y: "settled st s y"
    and ch: "chain cb s p L c" and fuel: "L \<le> n" "1 \<le> m"
  shows "\<exists>cs. set_trap (makeObservable m) n p k y s =
                 (Inr True, s\<lparr>heap := (heap s)[a := Reflect_set ob k y], calls := calls s @ cs\<rparr>) \<and>
              told cb cs = c \<and>
              list_all (\<lambda>x. etype (snd x) = Change \<and> valueNew (snd x) = y) cs"
proof -
  from fuel(2) obtain m' where m: "m = Suc m'" by (cases m) auto
  have ty: "typeof y = TObject" by (rule settled_object [OF y])
  have val: "(if typeof y = TObject
            then bind (isObservable y)
                   (\<lambda>b. if \<not> b then makeObservable m y (VStr (key_String k)) (VObj p) st
                        else ret y)
            else ret y) s = (Inr y, s)"
  proof -
    have "makeObservable m y (VStr (key_String k)) (VObj p) st s = (Inr y, s)"
      unfolding m by (rule settled_mk [OF y])
    then show ?thesis using ty by (simp add: isObservable_def bind_def ret_def)
  qed
  from facade_SomeD [OF fac] have o: "obj_at s a = Some ob" by (simp add: obj_at_def)
  let ?s1 = "store a (Reflect_set ob k y) s"
  have ms: "observableMap ?s1 = observableMap s" by simp
  from chain_trigger [OF ch ms fuel(1), of Change "VStr (key_String k)" y "Reflect_get ob k"]
  obtain cs where t: "triggerObserver n Change (VObj p) (VStr (key_String k)) y (Reflect_get ob k) ?s1
                       = (Inr (), ?s1\<lparr>calls := calls ?s1 @ cs\<rparr>)"
    and c: "told cb cs = c"
    and l: "list_all (\<lambda>x. etype (snd x) = Change \<and> valueNew (snd x) = y) cs"
    by blast
  have r: "set_trap (makeObservable m) n p k y s = (Inr True, ?s1\<lparr>calls := calls ?s1 @ cs\<rparr>)"
    using fac val o t by (simp add: set_trap_def Let_def bind_def ret_def)
  have e: "?s1\<lparr>calls := calls ?s1 @ cs\<rparr> =
      s\<lparr>heap := (heap s)[a := Reflect_set ob k y], calls := calls s @ cs\<rparr>"
    by (simp add: store_def)
  have "set_trap (makeObservable m) n p k y s =
      (Inr True, s\<lparr>heap := (heap s)[a := Reflect_set ob k y], calls := calls s @ cs\<rparr>)"
    unfolding e [symmetric] by (rule r)
  with c l show ?thesis by blast
qed


lemma laid_node:
  assumes "laid st s t" and "b \<in> addrs t"
  shows "b < length (heap s)"
  using assms
proof (induction t)
  case (Leaf v)
  then show ?case by simp
next
  case (Rec a kts)
  show ?case
  proof (cases "b = a")
    case True
    with Rec.prems show ?thesis by (simp add: obj_at_def split: if_splits)
  next
    case False
    with Rec.prems(2) obtain kt where kt: "kt \<in> set kts" "b \<in> addrs (snd kt)" by auto
    obtain k t where e: "kt = (k, t)" by (cases kt) auto
    from Rec.IH [OF kt(1) [unfolded e]] kt Rec.prems(1) e show ?thesis
      by (auto simp: snds.simps)
  qed
next
  case (Lst a ts)
  show ?case
  proof (cases "b = a")
    case True
    with Lst.prems show ?thesis by (simp add: obj_at_def split: if_splits)
  next
    case False
    with Lst.prems(2) obtain t where t: "t \<in> set ts" "b \<in> addrs t" by auto
    from Lst.IH [OF t(1) _ t(2)] t(1) Lst.prems(1) show ?thesis by simp
  qed
qed

lemma laid_frame:
  assumes "laid st s t" and so: "step_ok s s'"
    and "\<forall>b\<in>addrs t. heap s' ! b = heap s ! b"
  shows "laid st s' t"
  using assms(1,3)
proof (induction t)
  case (Leaf v)
  then show ?case using settled_step [OF _ so] by auto
next
  case (Rec a kts)
  from Rec.prems(1) have o: "obj_at s a = Some (Plain (map (\<lambda>kt. (fst kt, root_of (snd kt))) kts))"
    by simp
  then have al: "a < length (heap s)" by (simp add: obj_at_def split: if_splits)
  have "obj_at s' a = obj_at s a"
    using al step_ok_len [OF so] Rec.prems(2) by (simp add: obj_at_def)
  moreover have "observableMap s' a = None"
    using step_ok_map_old [OF so al] Rec.prems(1) by simp
  moreover have "laid st s' (snd kt)" if "kt \<in> set kts" for kt
  proof -
    obtain k t where kt: "kt = (k, t)" by (cases kt) auto
    from Rec.IH [OF that [unfolded kt]] Rec.prems that kt show ?thesis
      by (auto simp: snds.simps)
  qed
  ultimately show ?case using Rec.prems(1) by simp
next
  case (Lst a ts)
  from Lst.prems(1) have o: "obj_at s a = Some (Arr (map root_of ts))" by simp
  then have al: "a < length (heap s)" by (simp add: obj_at_def split: if_splits)
  have "obj_at s' a = obj_at s a"
    using al step_ok_len [OF so] Lst.prems(2) by (simp add: obj_at_def)
  moreover have "observableMap s' a = None"
    using step_ok_map_old [OF so al] Lst.prems(1) by simp
  moreover have "laid st s' t" if "t \<in> set ts" for t
    using Lst.IH [OF that] Lst.prems that by auto
  ultimately show ?case using Lst.prems(1) by simp
qed

lemma apart_keys:
  assumes "apart (map (\<lambda>kt. addrs (snd kt)) kts)" and "distinct (map fst kts)"
    and "kt \<in> set kts" and "kt' \<in> set kts" and "fst kt \<noteq> fst kt'"
  shows "addrs (snd kt) \<inter> addrs (snd kt') = {}"
  using assms by (induction kts) auto

lemma indexed_snd [simp]: "map snd (indexed i ts) = ts"
  by (induction ts arbitrary: i) simp_all

lemma indexed_map: "map (\<lambda>kt. f (snd kt)) (indexed i ts) = map f ts"
  by (induction ts arbitrary: i) simp_all

lemma indexed_nth:
  "kt \<in> set (indexed i ts) \<longleftrightarrow> (\<exists>j<length ts. kt = (Index (i + j), ts ! j))"
proof (induction ts arbitrary: i)
  case Nil
  show ?case by simp
next
  case (Cons t ts)
  show ?case
  proof
    assume "kt \<in> set (indexed i (t # ts))"
    then consider "kt = (Index i, t)" | "kt \<in> set (indexed (Suc i) ts)" by auto
    then show "\<exists>j<length (t # ts). kt = (Index (i + j), (t # ts) ! j)"
    proof cases
      case 1
      then show ?thesis by (intro exI [of _ 0]) simp
    next
      case 2
      with Cons.IH [of "Suc i"] obtain j where "j < length ts" "kt = (Index (Suc i + j), ts ! j)"
        by blast
      then show ?thesis by (intro exI [of _ "Suc j"]) simp
    qed
  next
    assume "\<exists>j<length (t # ts). kt = (Index (i + j), (t # ts) ! j)"
    then obtain j where j: "j < length (t # ts)" "kt = (Index (i + j), (t # ts) ! j)" by blast
    show "kt \<in> set (indexed i (t # ts))"
    proof (cases j)
      case 0
      with j show ?thesis by simp
    next
      case (Suc j')
      with j have "j' < length ts" "kt = (Index (Suc i + j'), ts ! j')" by simp_all
      with Cons.IH [of "Suc i"] show ?thesis by auto
    qed
  qed
qed

lemma indexed_distinct: "distinct (map fst (indexed i ts))"
proof (induction ts arbitrary: i)
  case Nil
  show ?case by simp
next
  case (Cons t ts)
  have "Index i \<notin> fst ` set (indexed (Suc i) ts)"
    by (auto simp: indexed_nth)
  with Cons.IH [of "Suc i"] show ?case by simp
qed

lemma Reflect_set_local:
  "typeof (Reflect_get ob k) = TObject \<Longrightarrow> k' \<noteq> k \<Longrightarrow>
   Reflect_get (Reflect_set ob k v) k' = Reflect_get ob k'"
proof (cases ob)
  case (Plain fs)
  assume "k' \<noteq> k"
  with Plain show ?thesis by (simp add: map_of_put)
next
  case (Arr xs)
  assume a: "typeof (Reflect_get ob k) = TObject" "k' \<noteq> k"
  show ?thesis
  proof (cases k)
    case (Name n)
    with a Arr show ?thesis by (simp split: if_splits)
  next
    case (Index i)
    with a Arr have "i < length xs" by (simp split: if_splits)
    with a Arr Index show ?thesis by (cases k') auto
  qed
next
  case (TypedArr tk xs)
  assume "typeof (Reflect_get ob k) = TObject"
  with TypedArr show ?thesis by (cases k) (simp_all split: if_splits)
qed simp_all

lemma tree_wrappedD:
  assumes "tree_wrapped cb st t s y s'"
  shows "step_ok s s'"
    and "\<And>b. b < length (heap s) \<Longrightarrow> b \<notin> addrs t \<Longrightarrow> heap s' ! b = heap s ! b"
    and "\<exists>cs. calls s' = calls s @ cs \<and> told cb cs = nslots t \<and> changes cs"
    and "settled st s' y"
  using assms unfolding tree_wrapped_def by blast+

lemma member_run:
  assumes IH: "wraps_tree cb st t"
    and fac: "facade s p = Some (a, st, ob)"
    and ch: "chain cb s p L 1"
    and val: "Reflect_get ob k = root_of t"
    and ld: "laid st s t"
    and na: "a \<notin> addrs t"
    and fuel: "need t + L \<le> m"
  shows "\<exists>s2 cs. wrap_member (makeObservable m) m p st k s = (Inr (), s2) \<and>
           step_ok s s2 \<and>
           (\<forall>b<length (heap s). b \<noteq> a \<longrightarrow> b \<notin> addrs t \<longrightarrow> heap s2 ! b = heap s ! b) \<and>
           (\<forall>k'. k' \<noteq> k \<longrightarrow> Reflect_get (heap s2 ! a) k' = Reflect_get ob k') \<and>
           calls s2 = calls s @ cs \<and>
           told cb cs = (if typeof (root_of t) = TObject then 1 else 0) + nslots t \<and>
           changes cs"
proof -
  from facade_SomeD [OF fac] have al: "a < length (heap s)" and ha: "heap s ! a = ob"
    by simp_all
  have g: "get_trap s p k = root_of t" using fac val by (simp add: get_trap_def)
  show ?thesis
  proof (cases "typeof (root_of t) = TObject")
    case False
    with g have "wrap_member (makeObservable m) m p st k s = (Inr (), s)"
      by (simp add: wrap_member_def)
    moreover from False have "nslots t = 0" by (cases t) simp_all
    ultimately show ?thesis using False ha
      by (intro exI [of _ s] exI [of _ "[]"]) simp
  next
    case True
    let ?mk = "makeObservable m"
    note w = makeObservable_wraps [of m]
    from IH ld True ch fuel obtain y s1 where
      mk: "?mk (root_of t) (VStr (key_String k)) (VObj p) st s = (Inr y, s1)"
      and tw: "tree_wrapped cb st t s y s1"
      unfolding wraps_tree_def by blast
    note d = tree_wrappedD [OF tw]
    have ha1: "heap s1 ! a = ob" using d(2) [OF al na] ha by simp
    from step_ok_facade [OF d(1) fac] obtain ob' where f1': "facade s1 p = Some (a, st, ob')"
      by blast
    from facade_SomeD [OF f1'] ha1 f1' have f1: "facade s1 p = Some (a, st, ob)"
      and al1: "a < length (heap s1)" by simp_all
    have ch1: "chain cb s1 p L 1" by (rule chain_step [OF ch d(1)])
    have m1: "L \<le> m" "1 \<le> m" using fuel by (cases t; simp)+
    from set_trap_run [OF f1 d(4) ch1 m1, of k] obtain cs2 where
      st: "set_trap ?mk m p k y s1 =
             (Inr True, s1\<lparr>heap := (heap s1)[a := Reflect_set ob k y], calls := calls s1 @ cs2\<rparr>)"
      and c2: "told cb cs2 = 1"
      and l2: "list_all (\<lambda>x. etype (snd x) = Change \<and> valueNew (snd x) = y) cs2"
      by blast
    let ?s2 = "s1\<lparr>heap := (heap s1)[a := Reflect_set ob k y], calls := calls s1 @ cs2\<rparr>"
    have ty: "typeof y = TObject" by (rule settled_object [OF d(4)])
    have so2: "step_ok s1 ?s2" by (rule set_trap_ok(1) [OF w st ty])
    from d(3) obtain cs1 where c1: "calls s1 = calls s @ cs1" "told cb cs1 = nslots t"
      "changes cs1" by blast
    have r: "wrap_member ?mk m p st k s = (Inr (), ?s2)"
      using g True mk st by (simp add: wrap_member_def bind_def ret_def)
    have 1: "step_ok s ?s2" by (rule step_ok_trans [OF d(1) so2])
    have 2: "heap ?s2 ! b = heap s ! b" if "b < length (heap s)" "b \<noteq> a" "b \<notin> addrs t" for b
      using that d(2) [OF that(1,3)] by simp
    have 3: "Reflect_get (heap ?s2 ! a) k' = Reflect_get ob k'" if "k' \<noteq> k" for k'
      using that al1 Reflect_set_local [of ob k k' y] val True by simp
    have 4: "calls ?s2 = calls s @ (cs1 @ cs2)" using c1 by simp
    have 5: "told cb (cs1 @ cs2) = (if typeof (root_of t) = TObject then 1 else 0) + nslots t"
      using c1 c2 True by simp
    have 6: "changes (cs1 @ cs2)" using c1(3) l2 by (auto simp: changes_def list_all_iff)
    show ?thesis
      using r 1 2 3 4 5 6 by blast
  qed
qed


lemma member_next:
  assumes IH: "\<forall>t\<in>T. wraps_tree cb st t"
    and inv: "loop_inv cb st p a L m s ob (kt # rest)" and T: "snd kt \<in> T"
  shows "\<exists>s2 cs. wrap_member (makeObservable m) m p st (fst kt) s = (Inr (), s2) \<and>
           loop_inv cb st p a L m s2 (heap s2 ! a) rest \<and>
           step_ok s s2 \<and>
           (\<forall>b<length (heap s). b \<noteq> a \<longrightarrow> b \<notin> addrs (snd kt) \<longrightarrow> heap s2 ! b = heap s ! b) \<and>
           (\<forall>k'. k' \<noteq> fst kt \<longrightarrow> Reflect_get (heap s2 ! a) k' = Reflect_get ob k') \<and>
           calls s2 = calls s @ cs \<and>
           told cb cs = (if typeof (root_of (snd kt)) = TObject then 1 else 0) + nslots (snd kt) \<and>
           changes cs"
proof -
  from inv have fac: "facade s p = Some (a, st, ob)" and ch: "chain cb s p L 1"
    and val: "Reflect_get ob (fst kt) = root_of (snd kt)" and ld: "laid st s (snd kt)"
    and na: "a \<notin> addrs (snd kt)" and fuel: "need (snd kt) + L \<le> m"
    and rest: "\<forall>kt'\<in>set rest. Reflect_get ob (fst kt') = root_of (snd kt') \<and>
                 laid st s (snd kt') \<and> a \<notin> addrs (snd kt') \<and> need (snd kt') + L \<le> m"
    and dk: "fst kt \<notin> fst ` set rest" "distinct (map fst rest)"
    and dj: "\<forall>kt'\<in>set rest. fst kt \<noteq> fst kt' \<longrightarrow> addrs (snd kt) \<inter> addrs (snd kt') = {}"
      "\<forall>kt'\<in>set rest. \<forall>kt''\<in>set rest. fst kt' \<noteq> fst kt'' \<longrightarrow>
          addrs (snd kt') \<inter> addrs (snd kt'') = {}"
    unfolding loop_inv_def by simp_all
  from IH T have w: "wraps_tree cb st (snd kt)" by blast
  from member_run [OF w fac ch val ld na fuel] obtain s2 cs where
    r: "wrap_member (makeObservable m) m p st (fst kt) s = (Inr (), s2)"
    and so: "step_ok s s2"
    and fr: "\<forall>b<length (heap s). b \<noteq> a \<longrightarrow> b \<notin> addrs (snd kt) \<longrightarrow> heap s2 ! b = heap s ! b"
    and rd: "\<forall>k'. k' \<noteq> fst kt \<longrightarrow> Reflect_get (heap s2 ! a) k' = Reflect_get ob k'"
    and cs: "calls s2 = calls s @ cs"
      "told cb cs = (if typeof (root_of (snd kt)) = TObject then 1 else 0) + nslots (snd kt)"
      "changes cs"
    by blast
  from step_ok_facade [OF so fac] obtain ob' where f2': "facade s2 p = Some (a, st, ob')" by blast
  from facade_SomeD [OF f2'] f2' have f2: "facade s2 p = Some (a, st, heap s2 ! a)" by simp
  have ch2: "chain cb s2 p L 1" by (rule chain_step [OF ch so])
  have each: "Reflect_get (heap s2 ! a) (fst kt') = root_of (snd kt') \<and>
              laid st s2 (snd kt') \<and> a \<notin> addrs (snd kt') \<and> need (snd kt') + L \<le> m"
    if m: "kt' \<in> set rest" for kt'
  proof -
    from rest m have v: "Reflect_get ob (fst kt') = root_of (snd kt')" and l: "laid st s (snd kt')"
      and n: "a \<notin> addrs (snd kt')" and f: "need (snd kt') + L \<le> m" by simp_all
    from dk(1) m have ne: "fst kt' \<noteq> fst kt" by (metis imageI)
    with dj(1) m have d: "addrs (snd kt) \<inter> addrs (snd kt') = {}" by metis
    have "heap s2 ! b = heap s ! b" if "b \<in> addrs (snd kt')" for b
    proof -
      have "b < length (heap s)" by (rule laid_node [OF l that])
      moreover have "b \<noteq> a" using n that by auto
      moreover have "b \<notin> addrs (snd kt)" using d that by auto
      ultimately show ?thesis using fr by blast
    qed
    then have "laid st s2 (snd kt')" using laid_frame [OF l so] by blast
    with rd ne v n f show ?thesis by simp
  qed
  have "loop_inv cb st p a L m s2 (heap s2 ! a) rest"
    unfolding loop_inv_def using f2 ch2 each dk(2) dj(2) by blast
  with r so fr rd cs show ?thesis by blast
qed

lemma rec_loop:
  assumes IH: "\<forall>t\<in>T. wraps_tree cb st t"
    and inv: "loop_inv cb st p a L m s ob todo" and sub: "snd ` set todo \<subseteq> T"
  shows "\<exists>s' cs. for_each (wrap_member (makeObservable m) m p st) (map fst todo) s = (Inr (), s') \<and>
           step_ok s s' \<and>
           (\<forall>b<length (heap s). b \<noteq> a \<longrightarrow> b \<notin> (\<Union>kt\<in>set todo. addrs (snd kt)) \<longrightarrow>
              heap s' ! b = heap s ! b) \<and>
           calls s' = calls s @ cs \<and>
           told cb cs = sum_list (map (\<lambda>kt. (if typeof (root_of (snd kt)) = TObject then 1 else 0) +
                                        nslots (snd kt)) todo) \<and>
           changes cs"
  using inv sub
proof (induction todo arbitrary: s ob)
  case Nil
  show ?case by (intro exI [of _ s] exI [of _ "[]"]) simp
next
  case (Cons kt rest)
  from Cons.prems(2) have T: "snd kt \<in> T" and sub: "snd ` set rest \<subseteq> T" by simp_all
  from member_next [OF IH Cons.prems(1) T] obtain s2 cs1 where
    r: "wrap_member (makeObservable m) m p st (fst kt) s = (Inr (), s2)"
    and inv2: "loop_inv cb st p a L m s2 (heap s2 ! a) rest"
    and so: "step_ok s s2"
    and fr: "\<forall>b<length (heap s). b \<noteq> a \<longrightarrow> b \<notin> addrs (snd kt) \<longrightarrow> heap s2 ! b = heap s ! b"
    and cs1: "calls s2 = calls s @ cs1"
      "told cb cs1 = (if typeof (root_of (snd kt)) = TObject then 1 else 0) + nslots (snd kt)"
      "changes cs1"
    by blast
  from Cons.IH [OF inv2 sub] obtain s' cs2 where
    l: "for_each (wrap_member (makeObservable m) m p st) (map fst rest) s2 = (Inr (), s')"
    and so2: "step_ok s2 s'"
    and fr2: "\<forall>b<length (heap s2). b \<noteq> a \<longrightarrow> b \<notin> (\<Union>kt\<in>set rest. addrs (snd kt)) \<longrightarrow>
              heap s' ! b = heap s2 ! b"
    and cs2: "calls s' = calls s2 @ cs2"
      "told cb cs2 = sum_list (map (\<lambda>kt. (if typeof (root_of (snd kt)) = TObject then 1 else 0) +
                                        nslots (snd kt)) rest)"
      "changes cs2"
    by blast
  have 1: "for_each (wrap_member (makeObservable m) m p st) (map fst (kt # rest)) s = (Inr (), s')"
    using r l by simp
  have 2: "step_ok s s'" by (rule step_ok_trans [OF so so2])
  have 3: "heap s' ! b = heap s ! b"
    if "b < length (heap s)" "b \<noteq> a" "b \<notin> (\<Union>kt\<in>set (kt # rest). addrs (snd kt))" for b
  proof -
    from that(3) have nt: "b \<notin> addrs (snd kt)" and nr: "b \<notin> (\<Union>kt\<in>set rest. addrs (snd kt))"
      by simp_all
    have "b < length (heap s2)" using that(1) step_ok_len [OF so] by simp
    with fr2 that(2) nr have "heap s' ! b = heap s2 ! b" by blast
    with fr that(1,2) nt show ?thesis by simp
  qed
  have 4: "calls s' = calls s @ (cs1 @ cs2)" using cs1 cs2 by simp
  have 5: "told cb (cs1 @ cs2) =
      sum_list (map (\<lambda>kt. (if typeof (root_of (snd kt)) = TObject then 1 else 0) +
                          nslots (snd kt)) (kt # rest))"
    using cs1 cs2 by simp
  have 6: "changes (cs1 @ cs2)" using cs1 cs2 by simp
  show ?case using 1 2 3 4 5 6 by blast
qed

lemma arr_loop:
  assumes IH: "\<forall>t\<in>T. wraps_tree cb st t"
    and inv: "loop_inv cb st p a L m s ob (indexed i ts)"
    and len: "Reflect_get ob (Name ''length'') = VNum (int (i + length ts))"
    and fuel: "length ts < f" and sub: "set ts \<subseteq> T"
  shows "\<exists>s' cs. array_loop f (wrap_member (makeObservable m) m p st) p i s = (Inr (), s') \<and>
           step_ok s s' \<and>
           (\<forall>b<length (heap s). b \<noteq> a \<longrightarrow> b \<notin> (\<Union>t\<in>set ts. addrs t) \<longrightarrow>
              heap s' ! b = heap s ! b) \<and>
           calls s' = calls s @ cs \<and>
           told cb cs = sum_list (map (\<lambda>t. (if typeof (root_of t) = TObject then 1 else 0) +
                                        nslots t) ts) \<and>
           changes cs"
  using inv len fuel sub
proof (induction ts arbitrary: i s ob f)
  case Nil
  from Nil.prems(3) obtain f' where f: "f = Suc f'" by (cases f) auto
  from Nil.prems(1) have fac: "facade s p = Some (a, st, ob)" by (simp add: loop_inv_def)
  have "get_trap s p (Name ''length'') = VNum (int i)"
    using fac Nil.prems(2) by (simp add: get_trap_def)
  then have "array_loop f (wrap_member (makeObservable m) m p st) p i s = (Inr (), s)"
    by (simp add: f)
  then show ?case by (intro exI [of _ s] exI [of _ "[]"]) simp
next
  case (Cons t ts)
  from Cons.prems(3) obtain f' where f: "f = Suc f'" and f': "length ts < f'" by (cases f) auto
  from Cons.prems(4) have T: "snd (Index i, t) \<in> T" and sub: "set ts \<subseteq> T" by simp_all
  from Cons.prems(1) have inv: "loop_inv cb st p a L m s ob ((Index i, t) # indexed (Suc i) ts)"
    and fac: "facade s p = Some (a, st, ob)"
    by (simp_all add: loop_inv_def)
  have g: "get_trap s p (Name ''length'') = VNum (int (i + Suc (length ts)))"
    using fac Cons.prems(2) by (simp add: get_trap_def)
  from member_next [OF IH inv T] obtain s2 cs1 where
    r: "wrap_member (makeObservable m) m p st (Index i) s = (Inr (), s2)"
    and inv2: "loop_inv cb st p a L m s2 (heap s2 ! a) (indexed (Suc i) ts)"
    and so: "step_ok s s2"
    and fr: "\<forall>b<length (heap s). b \<noteq> a \<longrightarrow> b \<notin> addrs t \<longrightarrow> heap s2 ! b = heap s ! b"
    and rd: "\<forall>k'. k' \<noteq> Index i \<longrightarrow> Reflect_get (heap s2 ! a) k' = Reflect_get ob k'"
    and cs1: "calls s2 = calls s @ cs1"
      "told cb cs1 = (if typeof (root_of t) = TObject then 1 else 0) + nslots t"
      "changes cs1"
    by auto
  have len2: "Reflect_get (heap s2 ! a) (Name ''length'') = VNum (int (Suc i + length ts))"
    using rd Cons.prems(2) by simp
  from Cons.IH [OF inv2 len2 f' sub] obtain s' cs2 where
    l: "array_loop f' (wrap_member (makeObservable m) m p st) p (Suc i) s2 = (Inr (), s')"
    and so2: "step_ok s2 s'"
    and fr2: "\<forall>b<length (heap s2). b \<noteq> a \<longrightarrow> b \<notin> (\<Union>t\<in>set ts. addrs t) \<longrightarrow>
              heap s' ! b = heap s2 ! b"
    and cs2: "calls s' = calls s2 @ cs2"
      "told cb cs2 = sum_list (map (\<lambda>t. (if typeof (root_of t) = TObject then 1 else 0) +
                                        nslots t) ts)"
      "changes cs2"
    by blast
  have 1: "array_loop f (wrap_member (makeObservable m) m p st) p i s = (Inr (), s')"
    using g r l by (simp add: f)
  have 2: "step_ok s s'" by (rule step_ok_trans [OF so so2])
  have 3: "heap s' ! b = heap s ! b"
    if "b < length (heap s)" "b \<noteq> a" "b \<notin> (\<Union>t\<in>set (t # ts). addrs t)" for b
  proof -
    from that(3) have nt: "b \<notin> addrs t" and nr: "b \<notin> (\<Union>t\<in>set ts. addrs t)"
      by simp_all
    have "b < length (heap s2)" using that(1) step_ok_len [OF so] by simp
    with fr2 that(2) nr have "heap s' ! b = heap s2 ! b" by blast
    with fr that(1,2) nt show ?thesis by simp
  qed
  have 4: "calls s' = calls s @ (cs1 @ cs2)" using cs1 cs2 by simp
  have 5: "told cb (cs1 @ cs2) =
      sum_list (map (\<lambda>t. (if typeof (root_of t) = TObject then 1 else 0) + nslots t) (t # ts))"
    using cs1 cs2 by simp
  have 6: "changes (cs1 @ cs2)" using cs1 cs2 by simp
  show ?case using 1 2 3 4 5 6 by blast
qed


lemma distinct_Object_keys:
  assumes "distinct (map fst fs)"
  shows "distinct (Object_keys fs)"
proof -
  let ?ks = "map fst fs"
  have "inj_on index_of (set (filter array_index ?ks))"
  proof (rule inj_onI)
    fix x y
    assume "x \<in> set (filter array_index ?ks)" "y \<in> set (filter array_index ?ks)"
      and e: "index_of x = index_of y"
    then have "array_index x" "array_index y" by simp_all
    with e array_index_key show "x = y" by metis
  qed
  then have "distinct (map index_of (filter array_index ?ks))"
    using assms by (simp add: distinct_map)
  then have 1: "distinct (map Index (sort (map index_of (filter array_index ?ks))))"
    by (simp add: distinct_map inj_on_def)
  have 2: "distinct (filter (\<lambda>k. \<not> array_index k) ?ks)" using assms by simp
  have "x \<notin> set (filter (\<lambda>k. \<not> array_index k) ?ks)"
    if "x \<in> set (map Index (sort (map index_of (filter array_index ?ks))))" for x
  proof -
    from that obtain k where "array_index k" "x = Index (index_of k)" by auto
    then have "array_index x" by (simp add: array_index_key)
    then show ?thesis by simp
  qed
  then have 3: "set (map Index (sort (map index_of (filter array_index ?ks)))) \<inter>
             set (filter (\<lambda>k. \<not> array_index k) ?ks) = {}"
    by blast
  show ?thesis unfolding Object_keys_def distinct_append using 1 2 3 by blast
qed

lemma distinct_fst: "distinct (map fst xs) \<Longrightarrow> distinct xs"
  by (simp add: distinct_map)

lemma sum_list_same_set:
  fixes f :: "'a \<Rightarrow> nat"
  assumes "distinct xs" and "distinct ys" and "set xs = set ys"
  shows "sum_list (map f xs) = sum_list (map f ys)"
proof -
  have "sum_list (map f xs) = sum f (set xs)"
    using assms(1) by (rule sum_list_distinct_conv_sum_set)
  moreover have "sum_list (map f ys) = sum f (set ys)"
    using assms(2) by (rule sum_list_distinct_conv_sum_set)
  ultimately show ?thesis by (simp only: assms(3))
qed

lemma tree_wrappedI:
  assumes "step_ok s s'"
    and "\<And>b. b < length (heap s) \<Longrightarrow> b \<notin> addrs t \<Longrightarrow> heap s' ! b = heap s ! b"
    and "calls s' = calls s @ cs" and "told cb cs = nslots t" and "changes cs"
    and "settled st s' y"
  shows "tree_wrapped cb st t s y s'"
  unfolding tree_wrapped_def using assms by blast

lemma node_start:
  assumes o: "obj_at s a = Some ob" and fk: "facade_kind ob" and nm: "observableMap s a = None"
    and ch: "chain cb s q L 1"
  shows "makeObservable (Suc m) (VObj a) nm' (VObj q) st s =
           bind (children (makeObservable m) m (length (heap s)) st ob)
             (\<lambda>u. ret (VObj (length (heap s)))) (snd (new_Proxy a nm' (VObj q) st s))"
    and "step_ok s (snd (new_Proxy a nm' (VObj q) st s))"
    and "facade (snd (new_Proxy a nm' (VObj q) st s)) (length (heap s)) = Some (a, st, ob)"
    and "chain cb (snd (new_Proxy a nm' (VObj q) st s)) (length (heap s)) (Suc L) 1"
    and "calls (snd (new_Proxy a nm' (VObj q) st s)) = calls s"
    and "settled st (snd (new_Proxy a nm' (VObj q) st s)) (VObj (length (heap s)))"
    and "\<And>b. b < length (heap s) \<Longrightarrow> heap (snd (new_Proxy a nm' (VObj q) st s)) ! b = heap s ! b"
proof -
  let ?p = "length (heap s)"
  let ?i = "\<lparr>raw = VObj a, name = nm', parent = VObj q, callbacks = [], paused = (\<lambda>cb. None)\<rparr>"
  define sA where "sA = snd (new_Proxy a nm' (VObj q) st s)"
  have sA: "sA = s\<lparr>heap := heap s @ [Proxy a st],
        observableMap := (observableMap s)(length (heap s) \<mapsto> ?i)\<rparr>"
    by (simp add: sA_def new_Proxy_eq)
  have np: "new_Proxy a nm' (VObj q) st s = (?p, sA)" by (simp add: new_Proxy_eq sA)
  have nh: "\<not> map_has s (VObj a)" using nm by simp
  from o have al: "a < length (heap s)" and oa: "heap s ! a = ob"
    by (simp_all add: obj_at_def split: if_splits)
  have 1: "makeObservable (Suc m) (VObj a) nm' (VObj q) st s =
           bind (children (makeObservable m) m ?p st ob) (\<lambda>u. ret (VObj ?p)) sA"
    using makeObservable_Suc_facade [OF nh o fk, of m nm' "VObj q" st] np by simp
  have so: "step_ok s sA" by (rule step_ok_new_Proxy [OF np])
  have 3: "facade sA ?p = Some (a, st, ob)"
    using al oa by (simp add: facade_def obj_at_def sA nth_append)
  have chq: "chain cb sA q L 1" by (rule chain_step [OF ch so])
  have "chain cb sA ?p (Suc L) (active cb ?i + 1)"
    by (rule chain.up [OF _ _ _ chq]) (simp_all add: sA)
  then have 4: "chain cb sA ?p (Suc L) 1" by (simp add: active_def)
  have 5: "calls sA = calls s" by (simp add: sA)
  have 6: "settled st sA (VObj ?p)" by (simp add: sA)
  have 7: "heap sA ! b = heap s ! b" if "b < length (heap s)" for b
    using that by (simp add: sA nth_append)
  from 1 so 3 4 5 6 7 show
    "makeObservable (Suc m) (VObj a) nm' (VObj q) st s =
           bind (children (makeObservable m) m (length (heap s)) st ob)
             (\<lambda>u. ret (VObj (length (heap s)))) (snd (new_Proxy a nm' (VObj q) st s))"
    and "step_ok s (snd (new_Proxy a nm' (VObj q) st s))"
    and "facade (snd (new_Proxy a nm' (VObj q) st s)) (length (heap s)) = Some (a, st, ob)"
    and "chain cb (snd (new_Proxy a nm' (VObj q) st s)) (length (heap s)) (Suc L) 1"
    and "calls (snd (new_Proxy a nm' (VObj q) st s)) = calls s"
    and "settled st (snd (new_Proxy a nm' (VObj q) st s)) (VObj (length (heap s)))"
    and "\<And>b. b < length (heap s) \<Longrightarrow> heap (snd (new_Proxy a nm' (VObj q) st s)) ! b = heap s ! b"
    unfolding sA_def by blast+
qed

lemma wrap_tree: "wraps_tree cb st t"
proof (induction t)
  case (Leaf v)
  show ?case
    unfolding wraps_tree_def
  proof (intro allI impI)
    fix n s nm q L
    assume ld: "laid st s (Leaf v)" and ty: "typeof (root_of (Leaf v)) = TObject"
      and fuel: "need (Leaf v) + L \<le> n"
    from ld ty have se: "settled st s v" by simp
    from fuel obtain m where n: "n = Suc m" by (cases n) auto
    have "makeObservable n (root_of (Leaf v)) nm (VObj q) st s = (Inr v, s)"
      unfolding n root_of.simps by (rule settled_mk [OF se])
    moreover have "tree_wrapped cb st (Leaf v) s v s"
      by (rule tree_wrappedI [where cs = "[]"]) (simp_all add: se)
    ultimately show "\<exists>y s'. makeObservable n (root_of (Leaf v)) nm (VObj q) st s = (Inr y, s') \<and>
                tree_wrapped cb st (Leaf v) s y s'" by blast
  qed
next
  case (Rec a kts)
  have IH: "\<forall>t\<in>snd ` set kts. wraps_tree cb st t"
  proof
    fix t assume "t \<in> snd ` set kts"
    then obtain kt where kt: "kt \<in> set kts" "t = snd kt" by auto
    obtain k t' where e: "kt = (k, t')" by (cases kt) auto
    from Rec.IH [OF kt(1) [unfolded e]] kt e show "wraps_tree cb st t" by (simp add: snds.simps)
  qed
  show ?case
    unfolding wraps_tree_def
  proof (intro allI impI)
    fix n s nm q L
    assume ld: "laid st s (Rec a kts)" and ch: "chain cb s q L 1"
      and fuel: "need (Rec a kts) + L \<le> n"
    let ?fs = "map (\<lambda>kt. (fst kt, root_of (snd kt))) kts"
    let ?F = "\<lambda>kt. (if typeof (root_of (snd kt)) = TObject then 1 else 0) + nslots (snd kt)"
    from ld have o: "obj_at s a = Some (Plain ?fs)" and nm: "observableMap s a = None"
      and dk: "distinct (map fst kts)" and lds: "\<forall>kt\<in>set kts. laid st s (snd kt)"
      and na: "a \<notin> (\<Union>kt\<in>set kts. addrs (snd kt))"
      and ap: "apart (map (\<lambda>kt. addrs (snd kt)) kts)"
      by simp_all
    from fuel obtain m where n: "n = Suc m"
      and m: "1 + sum_list (map (\<lambda>kt. need (snd kt)) kts) + L \<le> m" by (cases n) auto
    let ?p = "length (heap s)"
    define sA where "sA = snd (new_Proxy a nm (VObj q) st s)"
    have fk: "facade_kind (Plain ?fs)" by simp
    note ns = node_start [OF o fk nm ch, where st = st and nm' = nm, folded sA_def]
    let ?todo = "map (\<lambda>k. (k, the (map_of kts k))) (Object_keys ?fs)"
    have keys: "map fst ?fs = map fst kts" by (simp add: comp_def)
    have same: "(fst kt, the (map_of kts (fst kt))) = kt" if "kt \<in> set kts" for kt
    proof -
      have "map_of kts (fst kt) = Some (snd kt)" using dk that by simp
      then show ?thesis by (simp add: prod_eq_iff)
    qed
    have ks: "set (Object_keys ?fs) = fst ` set kts" by (simp add: set_Object_keys image_image)
    have st: "set ?todo = set kts"
    proof
      show "set ?todo \<subseteq> set kts" using ks same by auto
      show "set kts \<subseteq> set ?todo"
      proof
        fix kt assume "kt \<in> set kts"
        then have "fst kt \<in> set (Object_keys ?fs)" and "(fst kt, the (map_of kts (fst kt))) = kt"
          using ks same by auto
        then show "kt \<in> set ?todo" by force
      qed
    qed
    have mt: "map fst ?todo = Object_keys ?fs" by (simp add: comp_def)
    have dt: "distinct (map fst ?todo)"
      unfolding mt by (rule distinct_Object_keys) (use dk in \<open>simp add: comp_def\<close>)
    have each: "Reflect_get (Plain ?fs) (fst kt) = root_of (snd kt) \<and> laid st sA (snd kt) \<and>
                a \<notin> addrs (snd kt) \<and> need (snd kt) + Suc L \<le> m" if k: "kt \<in> set kts" for kt
    proof -
      have "distinct (map fst ?fs)" using dk by (simp add: comp_def)
      moreover have "(fst kt, root_of (snd kt)) \<in> set ?fs" using k by auto
      ultimately have "map_of ?fs (fst kt) = Some (root_of (snd kt))" by (rule map_of_is_SomeI)
      then have 1: "Reflect_get (Plain ?fs) (fst kt) = root_of (snd kt)" by simp
      from lds k have l: "laid st s (snd kt)" by simp
      have "heap sA ! b = heap s ! b" if "b \<in> addrs (snd kt)" for b
        using ns(7) laid_node [OF l that] by simp
      then have 2: "laid st sA (snd kt)" using laid_frame [OF l ns(2)] by blast
      have 3: "a \<notin> addrs (snd kt)" using na k by auto
      have "need (snd kt) \<in> set (map (\<lambda>kt. need (snd kt)) kts)" using k by auto
      then have "need (snd kt) \<le> sum_list (map (\<lambda>kt. need (snd kt)) kts)"
        by (simp add: member_le_sum_list)
      with m have 4: "need (snd kt) + Suc L \<le> m" by simp
      from 1 2 3 4 show ?thesis by simp
    qed
    have pw: "addrs (snd kt) \<inter> addrs (snd kt') = {}"
      if "kt \<in> set kts" "kt' \<in> set kts" "fst kt \<noteq> fst kt'" for kt kt'
      by (rule apart_keys [OF ap dk that])
    have inv: "loop_inv cb st ?p a (Suc L) m sA (Plain ?fs) ?todo"
      unfolding loop_inv_def
    proof (intro conjI)
      show "facade sA ?p = Some (a, st, Plain ?fs)" by (rule ns(3))
      show "chain cb sA ?p (Suc L) 1" by (rule ns(4))
      show "\<forall>kt\<in>set ?todo. Reflect_get (Plain ?fs) (fst kt) = root_of (snd kt) \<and>
              laid st sA (snd kt) \<and> a \<notin> addrs (snd kt) \<and> need (snd kt) + Suc L \<le> m"
        unfolding st using each by blast
      show "distinct (map fst ?todo)" by (rule dt)
      show "\<forall>kt\<in>set ?todo. \<forall>kt'\<in>set ?todo. fst kt \<noteq> fst kt' \<longrightarrow>
              addrs (snd kt) \<inter> addrs (snd kt') = {}"
        unfolding st using pw by blast
    qed
    have sub: "snd ` set ?todo \<subseteq> snd ` set kts" unfolding st by simp
    from rec_loop [OF IH inv sub] obtain s' cs where
      l: "for_each (wrap_member (makeObservable m) m ?p st) (map fst ?todo) sA = (Inr (), s')"
      and so: "step_ok sA s'"
      and fr: "\<forall>b<length (heap sA). b \<noteq> a \<longrightarrow> b \<notin> (\<Union>kt\<in>set ?todo. addrs (snd kt)) \<longrightarrow>
              heap s' ! b = heap sA ! b"
      and cs: "calls s' = calls sA @ cs" "told cb cs = sum_list (map ?F ?todo)" "changes cs"
      by blast
    have r: "makeObservable n (root_of (Rec a kts)) nm (VObj q) st s = (Inr (VObj ?p), s')"
      using ns(1) [of m] l unfolding n mt by (simp add: children_def bind_def ret_def)
    have sum: "sum_list (map ?F ?todo) = sum_list (map ?F kts)"
      by (rule sum_list_same_set [OF distinct_fst [OF dt] distinct_fst [OF dk] st])
    have "tree_wrapped cb st (Rec a kts) s (VObj ?p) s'"
    proof (rule tree_wrappedI [where cs = cs])
      show "step_ok s s'" by (rule step_ok_trans [OF ns(2) so])
      show "heap s' ! b = heap s ! b" if "b < length (heap s)" "b \<notin> addrs (Rec a kts)" for b
      proof -
        have "b < length (heap sA)" using that(1) step_ok_len [OF ns(2)] by simp
        moreover from that(2) have "b \<noteq> a" "b \<notin> (\<Union>kt\<in>set ?todo. addrs (snd kt))"
          unfolding st by simp_all
        ultimately have "heap s' ! b = heap sA ! b" using fr by blast
        with ns(7) [OF that(1)] show ?thesis by simp
      qed
      show "calls s' = calls s @ cs" using cs(1) ns(5) by simp
      show "told cb cs = nslots (Rec a kts)" using cs(2) sum by simp
      show "changes cs" by (rule cs(3))
      show "settled st s' (VObj ?p)" by (rule settled_step [OF ns(6) so])
    qed
    with r show "\<exists>y s'. makeObservable n (root_of (Rec a kts)) nm (VObj q) st s = (Inr y, s') \<and>
                tree_wrapped cb st (Rec a kts) s y s'" by blast
  qed
next
  case (Lst a ts)
  have IH: "\<forall>t\<in>set ts. wraps_tree cb st t" using Lst.IH by blast
  show ?case
    unfolding wraps_tree_def
  proof (intro allI impI)
    fix n s nm q L
    assume ld: "laid st s (Lst a ts)" and ch: "chain cb s q L 1"
      and fuel: "need (Lst a ts) + L \<le> n"
    let ?xs = "map root_of ts"
    let ?F = "\<lambda>t. (if typeof (root_of t) = TObject then 1 else 0) + nslots t"
    from ld have o: "obj_at s a = Some (Arr ?xs)" and nm: "observableMap s a = None"
      and lds: "\<forall>t\<in>set ts. laid st s t"
      and na: "a \<notin> (\<Union>t\<in>set ts. addrs t)"
      and ap: "apart (map addrs ts)"
      by simp_all
    from fuel obtain m where n: "n = Suc m"
      and m: "1 + length ts + sum_list (map need ts) + L \<le> m" by (cases n) auto
    let ?p = "length (heap s)"
    define sA where "sA = snd (new_Proxy a nm (VObj q) st s)"
    have fk: "facade_kind (Arr ?xs)" by simp
    note ns = node_start [OF o fk nm ch, where st = st and nm' = nm, folded sA_def]
    let ?todo = "indexed 0 ts"
    have each: "Reflect_get (Arr ?xs) (fst kt) = root_of (snd kt) \<and> laid st sA (snd kt) \<and>
                a \<notin> addrs (snd kt) \<and> need (snd kt) + Suc L \<le> m" if k: "kt \<in> set ?todo" for kt
    proof -
      from k obtain j where j: "j < length ts" "kt = (Index j, ts ! j)"
        by (auto simp: indexed_nth)
      then have mem: "snd kt \<in> set ts" by simp
      have 1: "Reflect_get (Arr ?xs) (fst kt) = root_of (snd kt)" using j by simp
      from lds mem have l: "laid st s (snd kt)" by simp
      have "heap sA ! b = heap s ! b" if "b \<in> addrs (snd kt)" for b
        using ns(7) laid_node [OF l that] by simp
      then have 2: "laid st sA (snd kt)" using laid_frame [OF l ns(2)] by blast
      have 3: "a \<notin> addrs (snd kt)" using na mem by auto
      have "need (snd kt) \<in> set (map need ts)" using mem by auto
      then have "need (snd kt) \<le> sum_list (map need ts)" by (simp add: member_le_sum_list)
      with m have 4: "need (snd kt) + Suc L \<le> m" by simp
      from 1 2 3 4 show ?thesis by simp
    qed
    have ap': "apart (map (\<lambda>kt. addrs (snd kt)) ?todo)"
      using ap by (simp only: indexed_map)
    have pw: "addrs (snd kt) \<inter> addrs (snd kt') = {}"
      if "kt \<in> set ?todo" "kt' \<in> set ?todo" "fst kt \<noteq> fst kt'" for kt kt'
      by (rule apart_keys [OF ap' indexed_distinct that])
    have inv: "loop_inv cb st ?p a (Suc L) m sA (Arr ?xs) ?todo"
      unfolding loop_inv_def
    proof (intro conjI)
      show "facade sA ?p = Some (a, st, Arr ?xs)" by (rule ns(3))
      show "chain cb sA ?p (Suc L) 1" by (rule ns(4))
      show "\<forall>kt\<in>set ?todo. Reflect_get (Arr ?xs) (fst kt) = root_of (snd kt) \<and>
              laid st sA (snd kt) \<and> a \<notin> addrs (snd kt) \<and> need (snd kt) + Suc L \<le> m"
        using each by blast
      show "distinct (map fst ?todo)" by (rule indexed_distinct)
      show "\<forall>kt\<in>set ?todo. \<forall>kt'\<in>set ?todo. fst kt \<noteq> fst kt' \<longrightarrow>
              addrs (snd kt) \<inter> addrs (snd kt') = {}"
        using pw by blast
    qed
    have len: "Reflect_get (Arr ?xs) (Name ''length'') = VNum (int (0 + length ts))" by simp
    have fl: "length ts < m" using m by simp
    from arr_loop [OF IH inv len fl subset_refl] obtain s' cs where
      l: "array_loop m (wrap_member (makeObservable m) m ?p st) ?p 0 sA = (Inr (), s')"
      and so: "step_ok sA s'"
      and fr: "\<forall>b<length (heap sA). b \<noteq> a \<longrightarrow> b \<notin> (\<Union>t\<in>set ts. addrs t) \<longrightarrow>
              heap s' ! b = heap sA ! b"
      and cs: "calls s' = calls sA @ cs" "told cb cs = sum_list (map ?F ts)" "changes cs"
      by blast
    have r: "makeObservable n (root_of (Lst a ts)) nm (VObj q) st s = (Inr (VObj ?p), s')"
      using ns(1) [of m] l unfolding n by (simp add: children_def bind_def ret_def)
    have "tree_wrapped cb st (Lst a ts) s (VObj ?p) s'"
    proof (rule tree_wrappedI [where cs = cs])
      show "step_ok s s'" by (rule step_ok_trans [OF ns(2) so])
      show "heap s' ! b = heap s ! b" if "b < length (heap s)" "b \<notin> addrs (Lst a ts)" for b
      proof -
        have "b < length (heap sA)" using that(1) step_ok_len [OF ns(2)] by simp
        moreover from that(2) have "b \<noteq> a" "b \<notin> (\<Union>t\<in>set ts. addrs t)" by simp_all
        ultimately have "heap s' ! b = heap sA ! b" using fr by blast
        with ns(7) [OF that(1)] show ?thesis by simp
      qed
      show "calls s' = calls s @ cs" using cs(1) ns(5) by simp
      show "told cb cs = nslots (Lst a ts)" using cs(2) by simp
      show "changes cs" by (rule cs(3))
      show "settled st s' (VObj ?p)" by (rule settled_step [OF ns(6) so])
    qed
    with r show "\<exists>y s'. makeObservable n (root_of (Lst a ts)) nm (VObj q) st s = (Inr y, s') \<and>
                tree_wrapped cb st (Lst a ts) s y s'" by blast
  qed
qed

subsection \<open>Wrapping, unwrapping and coverage\<close>

lemma nested_observed_result:
  "observable 16 (VObj 2) True nested_record = (Inr (VObj 3), nested_observed)"
proof -
  have "fst (observable 16 (VObj 2) True nested_record) = Inr (VObj 3)" by code_simp
  then show ?thesis by (simp add: nested_observed_def prod_eq_iff)
qed

lemma nested_record_root:
  "obj_at nested_record 2 = Some (Plain [(Name ''a'', VObj 1)])"
  "\<not> map_has nested_record (VObj 2)"
  by (simp_all add: nested_record_def init_def obj_at_def)

text \<open>
  C2, as stated, does not hold. \<open>observableMap\<close> is keyed by the proxies, not by the raw
  objects: passing the same raw plain object to \<open>observable\<close> a second time builds a
  second proxy (the results are the objects 1 and 2), and only passing the first result
  again returns it. And an object that is passed through (here a \<open>Date\<close>) comes back as
  it is and is not an observable.
\<close>

theorem rewrap_counterexample:
  "fst (wrap_twice (Plain [(Name ''a'', VNum 1)])) = Inr (VObj 1, VObj 2, VObj 1) \<and>
   fst (wrap_check (Opaque DateObj)) = Inr (VObj 0, False)"
  by code_simp

text \<open>
  C2, amended: for every object \<open>x\<close> of a kind that gets a proxy (plain object, array,
  Set, WeakSet, Map, WeakMap, typed array) that is not an observable, whenever
  \<open>observable(x)\<close> returns, its result \<open>f\<close> is a new object; \<open>isObservable(f)\<close> is true;
  \<open>observable(f)\<close>, with any \<open>strict\<close>, returns \<open>f\<close> and changes nothing; and
  \<open>isObservable(x)\<close> is still false.
\<close>

theorem wrap_facade_idempotent:
  assumes "obj_at s a = Some ob" and "facade_kind ob" and "\<not> map_has s (VObj a)"
    and "observable n (VObj a) strict s = (Inr f, s')"
  shows "f \<noteq> VObj a \<and>
         isObservable f s' = (Inr True, s') \<and>
         observable m f strict' s' = (Inr f, s') \<and>
         isObservable (VObj a) s' = (Inr False, s')"
proof -
  note r = observable_raw [OF assms]
  from assms(1) have a: "a < length (heap s)" by (simp add: obj_at_def split: if_splits)
  have "observableMap s' a = None"
    using step_ok_map_old [OF r(3) a] assms(3) by simp
  with r(1,2) a show ?thesis
    by (simp add: isObservable_def observable_def bind_def ret_def)
qed

theorem wrap_facade_idempotent_witness:
  "VObj 3 \<noteq> VObj 2 \<and>
   isObservable (VObj 3) nested_observed = (Inr True, nested_observed) \<and>
   observable 1 (VObj 3) False nested_observed = (Inr (VObj 3), nested_observed) \<and>
   isObservable (VObj 2) nested_observed = (Inr False, nested_observed)"
  using wrap_facade_idempotent [OF nested_record_root(1) _ nested_record_root(2)
          nested_observed_result, of 1 False]
  by simp

text \<open>
  C3, as stated, does not hold for the kinds that are passed through: \<open>observable\<close>
  returns a \<open>Date\<close> as it is, without an entry in \<open>observableMap\<close>, and \<open>raw\<close> of the
  result throws "argument not an observable".
\<close>

theorem unwrap_passed_through_counterexample:
  "fst (wrap_unwrap (Opaque DateObj)) = Inl NotObservable"
  by code_simp

text \<open>
  C3, amended: for every object \<open>x\<close> of a kind that gets a proxy that is not an
  observable, whenever \<open>observable(x)\<close> returns, \<open>raw\<close> of its result returns \<open>x\<close>.
\<close>

theorem raw_observable_roundtrip:
  assumes "obj_at s a = Some ob" and "facade_kind ob" and "\<not> map_has s (VObj a)"
    and "observable n (VObj a) strict s = (Inr f, s')"
  shows "raw_of f s' = (Inr (VObj a), s')"
  using observable_raw(1,2) [OF assms]
  by (simp add: raw_of_def isObservable_def bind_def)

theorem raw_observable_roundtrip_witness:
  "raw_of (VObj 3) nested_observed = (Inr (VObj 2), nested_observed)"
  using raw_observable_roundtrip [OF nested_record_root(1) _ nested_record_root(2)
          nested_observed_result]
  by simp






lemma unsupported_input:
  assumes "obj_at s a = Some Other" and "\<not> map_has s (VObj a)"
  shows "observable (Suc n) (VObj a) True s = (Inl UnsupportedType, s)"
    and "observable (Suc n) (VObj a) False s = (Inr (VObj a), s)"
  using assms by (simp_all add: observable_def isObservable_def bind_def)





text \<open>In this run the array element is an observable and the \<open>Date\<close> is not.\<close>

lemma mixed_observed_members:
  "fst (isObservable (VObj 6) mixed_observed) = Inr True"
  "fst (isObservable (VObj 0) mixed_observed) = Inr False"
  "opaque mixed_observed (VObj 0)"
  unfolding mixed_observed_def by code_simp+

subsection \<open>Observers\<close>

text \<open>
  C9: on an observable, \<open>observer\<close> with a callback that is registered throws and changes
  nothing; with a callback that is not registered it returns a handle and registers the
  callback, so that registering it again throws. \<open>destroy\<close> of a handle whose callback is
  not registered throws and changes nothing, as it does after a \<open>destroy\<close> that removed
  the callback. \<open>pause\<close> and \<open>resume\<close> never throw, and a second call changes nothing.
\<close>

theorem observer_guards:
  assumes "observableMap s a = Some i"
  shows
   "(cb \<in> set (callbacks i) \<longrightarrow>
       observer (VObj a) cb s = (Inl AlreadyRegistered, s) \<and>
       fst (destroy (Handle a cb) s) = Inr () \<and>
       destroy (Handle a cb) (snd (destroy (Handle a cb) s)) =
         (Inl NotRegistered, snd (destroy (Handle a cb) s))) \<and>
    (cb \<notin> set (callbacks i) \<longrightarrow>
       fst (observer (VObj a) cb s) = Inr (Handle a cb) \<and>
       observer (VObj a) cb (snd (observer (VObj a) cb s)) =
         (Inl AlreadyRegistered, snd (observer (VObj a) cb s)) \<and>
       destroy (Handle a cb) s = (Inl NotRegistered, s)) \<and>
    fst (pause (Handle a cb) s) = Inr () \<and>
    pause (Handle a cb) (snd (pause (Handle a cb) s)) = pause (Handle a cb) s \<and>
    fst (resume (Handle a cb) s) = Inr () \<and>
    resume (Handle a cb) (snd (resume (Handle a cb) s)) = resume (Handle a cb) s"
  using assms by (simp add: observer_def isObservable_def bind_def)

theorem observer_guards_witness:
  "observer (VObj 1) 7 observed_state = (Inl AlreadyRegistered, observed_state) \<and>
   fst (destroy (Handle 1 7) observed_state) = Inr () \<and>
   destroy (Handle 1 7) (snd (destroy (Handle 1 7) observed_state)) =
     (Inl NotRegistered, snd (destroy (Handle 1 7) observed_state)) \<and>
   fst (observer (VObj 1) 8 observed_state) = Inr (Handle 1 8) \<and>
   destroy (Handle 1 8) observed_state = (Inl NotRegistered, observed_state) \<and>
   fst (pause (Handle 1 7) observed_state) = Inr () \<and>
   pause (Handle 1 7) (snd (pause (Handle 1 7) observed_state)) =
     pause (Handle 1 7) observed_state"
  using observer_guards [of observed_state 1
          "\<lparr>raw = VObj 0, name = VStr [], parent = VNull, callbacks = [7],
            paused = (\<lambda>cb. None)(7 \<mapsto> False)\<rparr>" 7]
        observer_guards [of observed_state 1
          "\<lparr>raw = VObj 0, name = VStr [], parent = VNull, callbacks = [7],
            paused = (\<lambda>cb. None)(7 \<mapsto> False)\<rparr>" 8]
  by (simp add: observed_state_def)

subsection \<open>Assigning a value that holds objects\<close>

text \<open>
  \<open>proxy[k] = x\<close> on an observable with a registered callback that is not paused,
  where \<open>x\<close> is any plain object that is not an observable. Whenever the assignment
  returns, the callback has been called for the assignment itself, with the new proxy
  of \<open>x\<close> as the new value, and before that call it has been called at least once for
  every property of \<open>x\<close> that holds an object: the loop that wraps the members of \<open>x\<close>
  assigns each of them through the proxy of \<open>x\<close>, whose parent is the observable.
\<close>

lemma assignment_wraps_members:
  assumes iR: "observableMap s R = Some iR" "cb \<in> set (callbacks iR)"
              "paused iR cb \<noteq> Some True"
    and fR: "facade s R = Some (t, st, ob)"
    and x: "obj_at s x = Some (Plain fs)" "\<not> map_has s (VObj x)"
    and run: "set_trap (makeObservable n) n R k (VObj x) s = (Inr b, s')"
  shows "\<exists>pre post.
           calls s' = calls s @ pre @
             (cb, \<lparr>etype = Change, target = VObj R, path = VStr (key_String k),
                   valueNew = VObj (length (heap s)), valueOld = Reflect_get ob k\<rparr>) # post \<and>
           length (filter (\<lambda>f. typeof (Reflect_get (Plain fs) f) = TObject) (Object_keys fs))
             \<le> told cb pre"
proof -
  note fr = facade_SomeD [OF fR]
  let ?p = "length (heap s)"
  let ?F = "\<lambda>v s1. case obj_at s1 t of
               None \<Rightarrow> (Inl OutsideModel, s1)
             | Some ob1 \<Rightarrow>
                 bind (triggerObserver n Change (VObj R) (VStr (key_String k)) v
                         (Reflect_get ob k))
                   (\<lambda>u. ret True) (store t (Reflect_set ob1 k v) s1)"
  let ?M = "bind (isObservable (VObj x))
              (\<lambda>b. if \<not> b then makeObservable n (VObj x) (VStr (key_String k)) (VObj R) st
                   else ret (VObj x))"
  have io: "?M s = makeObservable n (VObj x) (VStr (key_String k)) (VObj R) st s"
    using x(2) by (simp add: bind_def isObservable_def)
  from run fR have "bind ?M ?F s = (Inr b, s')"
    by (simp add: set_trap_def Let_def)
  then have b: "bind (makeObservable n (VObj x) (VStr (key_String k)) (VObj R) st) ?F s
      = (Inr b, s')"
    using bind_cong_at [of ?M s "makeObservable n (VObj x) (VStr (key_String k)) (VObj R) st" ?F] io
    by simp
  from b show ?thesis
  proof (cases rule: bindE)
    case (err e)
    then show ?thesis by simp
  next
    case (ok y s1)
    then obtain m where n: "n = Suc m" by (cases n) auto
    define sA where "sA = s\<lparr>heap := heap s @ [Proxy x st],
        observableMap := (observableMap s)(length (heap s) \<mapsto>
          \<lparr>raw = VObj x, name = VStr (key_String k), parent = VObj R, callbacks = [],
            paused = (\<lambda>cb. None)\<rparr>)\<rparr>"
    have np: "new_Proxy x (VStr (key_String k)) (VObj R) st s = (?p, sA)"
      by (simp add: new_Proxy_eq sA_def)
    from x(1) have xl: "x < length (heap s)" and ox: "heap s ! x = Plain fs"
      by (simp_all add: obj_at_def split: if_splits)
    have "bind (children (makeObservable m) m ?p st (Plain fs)) (\<lambda>u. ret (VObj ?p)) sA = (Inr y, s1)"
      using ok(1) [unfolded n] makeObservable_Suc_facade [OF x(2) x(1), of m "VStr (key_String k)" "VObj R" st] np
      by simp
    then have lp: "for_each (wrap_member (makeObservable m) m ?p st) (Object_keys fs) sA = (Inr (), s1)"
      and y: "y = VObj ?p"
      by (cases rule: bindE; auto simp: ret_def children_def)+
    have fA: "facade sA ?p = Some (x, st, Plain fs)"
      using xl ox by (simp add: facade_def obj_at_def sA_def nth_append)
    have mA: "observableMap sA ?p = Some \<lparr>raw = VObj x, name = VStr (key_String k),
          parent = VObj R, callbacks = [], paused = (\<lambda>cb. None)\<rparr>"
      "observableMap sA R = Some iR" "R < length (heap sA)" "calls sA = calls s"
      using iR(1) fr by (simp_all add: sA_def)
    from member_loop_told [OF makeObservable_wraps lp fA mA(1) _ mA(2,3) iR(2,3)]
    obtain pre where pre: "calls s1 = calls s @ pre"
      and cnt: "length (filter (\<lambda>f. typeof (Reflect_get (Plain fs) f) = TObject) (Object_keys fs))
             \<le> told cb pre"
      using mA(4) by auto
    have so: "step_ok s s1" by (rule wrapsD(1) [OF makeObservable_wraps ok(1)])
    have m1: "observableMap s1 R = Some iR" using step_ok_map_old [OF so, of R] fr iR(1) by simp
    from ok(2) obtain ob1 where o1: "obj_at s1 t = Some ob1" by (cases "obj_at s1 t") auto
    let ?s2 = "store t (Reflect_set ob1 k y) s1"
    from ok(2) o1 have "bind (triggerObserver n Change (VObj R) (VStr (key_String k)) y
                         (Reflect_get ob k)) (\<lambda>u. ret True) ?s2 = (Inr b, s')"
      by simp
    then obtain u where tr: "triggerObserver n Change (VObj R) (VStr (key_String k)) y
                         (Reflect_get ob k) ?s2 = (Inr u, s')"
      by (cases rule: bindE) (auto simp: ret_def)
    have m2: "observableMap ?s2 R = Some iR" using m1 by simp
    from trigger_root_told [OF tr m2 iR(2,3)] obtain q post where
      "calls s' = calls ?s2 @ q @ (cb, \<lparr>etype = Change, target = VObj R,
         path = VStr (key_String k), valueNew = y, valueOld = Reflect_get ob k\<rparr>) # post"
      by blast
    with pre y have "calls s' = calls s @ (pre @ q) @ (cb, \<lparr>etype = Change, target = VObj R,
         path = VStr (key_String k), valueNew = VObj ?p, valueOld = Reflect_get ob k\<rparr>) # post"
      by simp
    moreover have "length (filter (\<lambda>f. typeof (Reflect_get (Plain fs) f) = TObject) (Object_keys fs))
             \<le> told cb (pre @ q)" using cnt by simp
    ultimately show ?thesis by blast
  qed
qed

lemma assigned_result: "assigned = (Inr True, snd assigned)"
proof -
  have "fst assigned = Inr True" by code_simp
  then show ?thesis by (simp add: prod_eq_iff)
qed

lemma assignment_wraps_members_run:
  "\<exists>pre post.
     calls (snd assigned) = calls assign_state @ pre @
       (1, \<lparr>etype = Change, target = VObj 4, path = VStr ''k'',
             valueNew = VObj 5, valueOld = VUndef\<rparr>) # post \<and>
     1 \<le> told 1 pre"
proof -
  let ?i = "\<lparr>raw = VObj 0, name = VStr [], parent = VNull, callbacks = [1::nat],
             paused = (\<lambda>cb. None)(1 \<mapsto> False)\<rparr>"
  have 1: "observableMap assign_state 4 = Some ?i" by (simp add: assign_state_def)
  have 2: "1 \<in> set (callbacks ?i)" by simp
  have 3: "paused ?i 1 \<noteq> Some True" by simp
  have 4: "facade assign_state 4 = Some (0, True, Plain [])"
    by (simp add: assign_state_def facade_def obj_at_def)
  have 5: "obj_at assign_state 3 = Some (Plain [(Name ''x'', VObj 2), (Name ''n'', VNum 5)])"
    by (simp add: assign_state_def obj_at_def)
  have 6: "\<not> map_has assign_state (VObj 3)" by (simp add: assign_state_def)
  have 7: "set_trap (makeObservable 16) 16 4 (Name ''k'') (VObj 3) assign_state =
             (Inr True, snd assigned)"
    using assigned_result by (simp add: assigned_def)
  have 8: "length (heap assign_state) = 5" by (simp add: assign_state_def)
  from assignment_wraps_members [OF 1 2 3 4 5 6 7] show ?thesis by (simp add: 8 Object_keys_def)
qed

lemma value_tree_laid: "laid True assign_state value_tree"
  by (simp add: value_tree_def assign_state_def obj_at_def)

text \<open>
  C10, as stated, does not hold for every value that holds objects. A Set with one
  member that is an object, assigned to a property of an observable: the loop over the
  items deletes the item and adds its proxy, so the callback is called twice for the one
  member, and then for the assignment. The same holds of a Map with one entry, and the
  member of a WeakSet is not visited, so the callback is called for the assignment only.
\<close>

theorem set_value_counterexample:
  "heap set_state ! 2 = SetO [VObj 1] \<and>
   fst set_assigned = Inr True \<and>
   calls (snd set_assigned) =
     [(1, \<lparr>etype = Change, target = VObj 3, path = VStr ''k.*'',
            valueNew = VUndef, valueOld = VObj 1\<rparr>),
      (1, \<lparr>etype = Change, target = VObj 3, path = VStr ''k.*'',
            valueNew = VObj 5, valueOld = VUndef\<rparr>),
      (1, \<lparr>etype = Change, target = VObj 3, path = VStr ''k'',
            valueNew = VObj 4, valueOld = VUndef\<rparr>)] \<and>
   heap map_state ! 2 = MapO [(VStr ''a'', VObj 1)] \<and>
   fst map_assigned = Inr True \<and>
   calls (snd map_assigned) =
     [(1, \<lparr>etype = Change, target = VObj 3, path = VStr ''k.a'',
            valueNew = VUndef, valueOld = VUndef\<rparr>),
      (1, \<lparr>etype = Change, target = VObj 3, path = VStr ''k.a'',
            valueNew = VObj 5, valueOld = VUndef\<rparr>),
      (1, \<lparr>etype = Change, target = VObj 3, path = VStr ''k'',
            valueNew = VObj 4, valueOld = VUndef\<rparr>)] \<and>
   heap weakset_state ! 2 = WeakSetO [VObj 1] \<and>
   fst weakset_assigned = Inr True \<and>
   calls (snd weakset_assigned) =
     [(1, \<lparr>etype = Change, target = VObj 3, path = VStr ''k'',
            valueNew = VObj 4, valueOld = VUndef\<rparr>)]"
  by code_simp

text \<open>
  C10, amended: \<open>proxy[k] = x\<close> on the observable \<open>R\<close> of a plain object, where the
  callback \<open>cb\<close> is registered and not paused exactly once on \<open>R\<close> and its ancestors, and
  \<open>x\<close> is a plain object or an array that is not an observable and whose members form a
  tree of such plain objects and arrays (a leaf is a value that is not an object, an
  observable, an \<open>Error\<close>, \<open>Date\<close> or \<open>RegExp\<close> object, or, when \<open>R\<close> is not strict, an
  object of an unsupported type). With enough fuel, whatever the state, the assignment
  returns \<open>true\<close>; \<open>cb\<close> is called once for each member of \<open>x\<close>, at any depth, that
  holds an object, and after that once for the assignment itself, with the new proxy of
  \<open>x\<close> as the new value; and every call made reports a change. (A member that holds an
  observable or an object that is passed through is assigned by the loop, too, and
  counts.)
\<close>

theorem assignment_event_count:
  assumes fR: "facade s R = Some (tR, st, Plain fsR)"
    and ch: "chain cb s R L 1"
    and tree: "laid st s t" "node t" "root_of t = VObj x"
    and fuel: "need t + L \<le> n"
  shows "\<exists>s' pre fin.
           set_trap (makeObservable n) n R k (VObj x) s = (Inr True, s') \<and>
           heap s' ! length (heap s) = Proxy x st \<and>
           calls s' = calls s @ pre @ fin \<and>
           told cb pre = nslots t \<and> changes pre \<and>
           told cb fin = 1 \<and>
           list_all (\<lambda>c. etype (snd c) = Change \<and> valueNew (snd c) = VObj (length (heap s))) fin"
proof -
  note fr = facade_SomeD [OF fR]
  let ?p = "length (heap s)"
  note rt = tree(3)
  from tree have "\<exists>ob. obj_at s x = Some ob \<and> facade_kind ob" and nx: "observableMap s x = None"
    by (cases t; simp)+
  then obtain ob where ox: "obj_at s x = Some ob" and fk: "facade_kind ob" by blast
  have nh: "\<not> map_has s (VObj x)" using nx by simp
  have ty: "typeof (root_of t) = TObject" using rt by simp
  from wrap_tree [of cb st t] tree(1) ty ch fuel obtain y s1 where
    mk: "makeObservable n (root_of t) (VStr (key_String k)) (VObj R) st s = (Inr y, s1)"
    and tw: "tree_wrapped cb st t s y s1"
    unfolding wraps_tree_def by blast
  note d = tree_wrappedD [OF tw]
  from fuel tree(2) obtain m where n: "n = Suc m" by (cases n; cases t) auto
  have y: "y = VObj ?p"
    by (rule makeObservable_facade_ok(5) [OF makeObservable_wraps nh ox fk mk [unfolded n rt] refl])
  from d(3) obtain pre where pre: "calls s1 = calls s @ pre" "told cb pre = nslots t" "changes pre"
    by blast
  have t1: "tR < length (heap s1)" using fr step_ok_len [OF d(1)] by simp
  let ?s2 = "store tR (Reflect_set (heap s1 ! tR) k y) s1"
  have ch1: "chain cb s1 R L 1" by (rule chain_step [OF ch d(1)])
  have m2: "observableMap ?s2 = observableMap s1" by simp
  have Ln: "L \<le> n" using fuel by simp
  from chain_trigger [OF ch1 m2 Ln, of Change "VStr (key_String k)" y "Reflect_get (Plain fsR) k"]
  obtain fin where tr: "triggerObserver n Change (VObj R) (VStr (key_String k)) y
        (Reflect_get (Plain fsR) k) ?s2 = (Inr (), ?s2\<lparr>calls := calls ?s2 @ fin\<rparr>)"
    and c: "told cb fin = 1"
    and l: "list_all (\<lambda>x. etype (snd x) = Change \<and> valueNew (snd x) = y) fin"
    by blast
  have val: "(if typeof (VObj x) = TObject
            then bind (isObservable (VObj x))
                   (\<lambda>b. if \<not> b then makeObservable n (VObj x) (VStr (key_String k)) (VObj R) st
                        else ret (VObj x))
            else ret (VObj x)) s = (Inr y, s1)"
    using nh mk rt by (simp add: isObservable_def bind_def)
  have r: "set_trap (makeObservable n) n R k (VObj x) s =
             (Inr True, ?s2\<lparr>calls := calls ?s2 @ fin\<rparr>)"
    using fR val t1 tr by (simp add: set_trap_def Let_def bind_def ret_def obj_at_def)
  have "heap s1 ! ?p = Proxy x st"
    by (rule makeObservable_facade_ok(3) [OF makeObservable_wraps nh ox fk mk [unfolded n rt]])
  then have h: "heap (?s2\<lparr>calls := calls ?s2 @ fin\<rparr>) ! ?p = Proxy x st"
    using fr by simp
  have "calls (?s2\<lparr>calls := calls ?s2 @ fin\<rparr>) = calls s @ pre @ fin" using pre(1) by simp
  with r h pre(2,3) c l y show ?thesis by blast
qed

theorem assignment_event_count_witness:
  "\<exists>s' pre fin.
     assigned = (Inr True, s') \<and> heap s' ! 5 = Proxy 3 True \<and>
     calls s' = calls assign_state @ pre @ fin \<and>
     told 1 pre = 2 \<and> changes pre \<and> told 1 fin = 1 \<and>
     list_all (\<lambda>c. etype (snd c) = Change \<and> valueNew (snd c) = VObj 5) fin"
proof -
  let ?i = "\<lparr>raw = VObj 0, name = VStr [], parent = VNull, callbacks = [1::nat],
             paused = (\<lambda>cb. None)(1 \<mapsto> False)\<rparr>"
  have 1: "facade assign_state 4 = Some (0, True, Plain [])"
    by (simp add: assign_state_def facade_def obj_at_def)
  have "chain 1 assign_state 4 1 (active 1 ?i)"
    by (rule chain.top) (simp_all add: assign_state_def)
  then have 2: "chain 1 assign_state 4 1 1" by (simp add: active_def)
  have 3: "node value_tree" by (simp add: value_tree_def)
  have 4: "need value_tree + 1 \<le> 16" by (simp add: value_tree_def)
  have 5: "root_of value_tree = VObj 3" by (simp add: value_tree_def)
  have 6: "nslots value_tree = 2" by (simp add: value_tree_def)
  have 7: "length (heap assign_state) = 5" by (simp add: assign_state_def)
  from assignment_event_count [OF 1 2 value_tree_laid 3 5 4, of "Name ''k''"]
  show ?thesis by (simp add: 6 7 assigned_def)
qed

text \<open>The calls for the array \<open>[{z: 1}, 3, date]\<close>: one for each of the two elements that
  hold an object, then one for the assignment.\<close>

lemma list_assigned_calls:
  "fst list_assigned = Inr True"
  "calls (snd list_assigned) =
     [(1, \<lparr>etype = Change, target = VObj 4, path = VStr ''k.0'',
            valueNew = VObj 6, valueOld = VObj 1\<rparr>),
      (1, \<lparr>etype = Change, target = VObj 4, path = VStr ''k.2'',
            valueNew = VObj 2, valueOld = VObj 2\<rparr>),
      (1, \<lparr>etype = Change, target = VObj 4, path = VStr ''k'',
            valueNew = VObj 5, valueOld = VUndef\<rparr>)]"
  by code_simp+

text \<open>In this run the callback is called three times: for \<open>x.y\<close> of the value, for \<open>x\<close>
  of the value, and for the assignment.\<close>

lemma assigned_calls:
  "calls (snd assigned) =
     [(1, \<lparr>etype = Change, target = VObj 4, path = VStr ''k.x.y'',
            valueNew = VObj 7, valueOld = VObj 1\<rparr>),
      (1, \<lparr>etype = Change, target = VObj 4, path = VStr ''k.x'',
            valueNew = VObj 6, valueOld = VObj 2\<rparr>),
      (1, \<lparr>etype = Change, target = VObj 4, path = VStr ''k'',
            valueNew = VObj 5, valueOld = VUndef\<rparr>)]"
  by code_simp

end
